theory Spec2Isabelle
  imports Main "HOL-Library.Char_ord" "HOL-Library.Product_Lexorder" "HOL-Library.Multiset"
begin

section \<open>Python values used by the cipher library\<close>

text \<open>
  The source is a single Python module, \<^verbatim>\<open>Security_Assignment.py\<close>. A Python string is a
  sequence of code points; it is modelled as a \<^typ>\<open>string\<close>, one \<^typ>\<open>char\<close> per code point
  (code points below 256). The transposition ciphers never inspect a character beyond
  comparing it, so nothing there depends on that bound. Integers are unbounded: \<^typ>\<open>int\<close>.
  List lengths, slice bounds and loop counters that the source keeps non-negative are
  \<^typ>\<open>nat\<close>.

  An exception that a function of the module can raise is a value \<open>Inl e\<close> of the result
  type \<open>py_error + 'a\<close>; a normal return is \<open>Inr v\<close>.
\<close>

datatype py_error = ZeroDivisionError | IndexError | TypeError

text \<open>\<^verbatim>\<open>ord(c)\<close> and \<^verbatim>\<open>chr(n)\<close>; the source calls \<^verbatim>\<open>chr\<close> on values in 65..90 only.\<close>

definition ord :: "char \<Rightarrow> int" where
  "ord c = of_char c"

definition chr :: "int \<Rightarrow> char" where
  "chr n = char_of n"

text \<open>\<^verbatim>\<open>s.ljust(width, fill)\<close>: pads on the right, never truncates.\<close>

definition ljust :: "string \<Rightarrow> int \<Rightarrow> char \<Rightarrow> string" where
  "ljust s width fill = s @ replicate (nat (width - int (length s))) fill"

text \<open>\<^verbatim>\<open>s.rstrip(c)\<close> for a single character \<open>c\<close>: removes every trailing \<open>c\<close>.\<close>

definition rstrip :: "string \<Rightarrow> char \<Rightarrow> string" where
  "rstrip s c = rev (dropWhile (\<lambda>x. x = c) (rev s))"

section \<open>Utility function\<close>

text \<open>
  \<^verbatim>\<open>mod_inv(a, m)\<close>: \<^verbatim>\<open>a % m\<close> raises for \<open>m = 0\<close>; the search runs over \<^verbatim>\<open>range(1, m)\<close> and
  returns the first hit, or \<^verbatim>\<open>None\<close>. Python's \<^verbatim>\<open>%\<close> is floored, as \<open>mod\<close> on \<^typ>\<open>int\<close>.
\<close>

definition mod_inv :: "int \<Rightarrow> int \<Rightarrow> py_error + int option" where
  "mod_inv a m =
     (if m = 0 then Inl ZeroDivisionError
      else (let a = a mod m in Inr (find (\<lambda>x. (a * x) mod m = 1) [1..m - 1])))"

section \<open>Transposition ciphers\<close>

subsection \<open>Rail fence\<close>

text \<open>
  The encoder's loop: \<^verbatim>\<open>rails[rail] += char\<close>, then the zigzag step. The state is the
  list \<^verbatim>\<open>rails\<close>, \<^verbatim>\<open>rail\<close> and \<^verbatim>\<open>direction\<close>. With two rails or more \<^verbatim>\<open>rail\<close> stays in
  \<^verbatim>\<open>range(num_rails)\<close> (lemma \<open>zigzag_range\<close>), so the index is never negative.
\<close>

fun rail_fence_write :: "string \<Rightarrow> int \<Rightarrow> int \<Rightarrow> int \<Rightarrow> string list \<Rightarrow> string list" where
  "rail_fence_write [] num_rails rail direction rails = rails"
| "rail_fence_write (char # plaintext) num_rails rail direction rails =
     (let rails = rails[nat rail := rails ! nat rail @ [char]];
          rail = rail + direction;
          direction = (if rail = 0 \<or> rail = num_rails - 1 then direction * (- 1) else direction)
      in rail_fence_write plaintext num_rails rail direction rails)"

definition rail_fence_encrypt :: "string \<Rightarrow> int \<Rightarrow> string" where
  "rail_fence_encrypt plaintext num_rails =
     (if num_rails \<le> 1 then plaintext
      else concat (rail_fence_write plaintext num_rails 0 1 (replicate (nat num_rails) '''')))"

text \<open>The decoder's first loop, \<^verbatim>\<open>for _ in range(len(ciphertext))\<close>, builds \<^verbatim>\<open>pattern\<close>.\<close>

fun zigzag :: "nat \<Rightarrow> int \<Rightarrow> int \<Rightarrow> int \<Rightarrow> int list" where
  "zigzag 0 num_rails rail direction = []"
| "zigzag (Suc n) num_rails rail direction =
     rail # (let rail = rail + direction;
                 direction = (if rail = 0 \<or> rail = num_rails - 1 then direction * (- 1)
                              else direction)
             in zigzag n num_rails rail direction)"

text \<open>
  The second loop allocates the characters to the rails; the dictionaries \<^verbatim>\<open>rails\<close> and
  \<^verbatim>\<open>counter\<close>, whose keys are \<^verbatim>\<open>range(num_rails)\<close>, are lists indexed by the rail.
\<close>

definition rail_fence_allocate :: "string \<Rightarrow> int list \<Rightarrow> int \<Rightarrow> string list \<times> nat" where
  "rail_fence_allocate ciphertext pattern num_rails =
     fold (\<lambda>rail_index.
        fold (\<lambda>i (rails, index).
                if pattern ! i = rail_index
                then (rails[nat rail_index := rails ! nat rail_index @ [ciphertext ! index]],
                      index + 1)
                else (rails, index))
             [0..<length ciphertext])
       [0..num_rails - 1] (replicate (nat num_rails) [], 0)"

fun rail_fence_read :: "int list \<Rightarrow> string list \<Rightarrow> nat list \<Rightarrow> string" where
  "rail_fence_read [] rails counter = []"
| "rail_fence_read (r # pattern) rails counter =
     rails ! nat r ! (counter ! nat r)
       # rail_fence_read pattern rails (counter[nat r := counter ! nat r + 1])"

definition rail_fence_decrypt :: "string \<Rightarrow> int \<Rightarrow> string" where
  "rail_fence_decrypt ciphertext num_rails =
     (if num_rails \<le> 1 then ciphertext
      else
        let pattern = zigzag (length ciphertext) num_rails 0 1;
            (rails, index) = rail_fence_allocate ciphertext pattern num_rails;
            counter = replicate (nat num_rails) 0
        in rail_fence_read pattern rails counter)"

subsection \<open>The padded grid\<close>

text \<open>
  Route, Columnar and Myszkowski build their grid with the same loop:
  \<^verbatim>\<open>for _ in range(rows): matrix.append([plaintext[index + j] for j in range(cols)]); index += cols\<close>.
  The text has been padded to \<open>rows * cols\<close> characters before, so every read is in range
  (lemma \<open>build_matrix_nth\<close> below).
\<close>

fun build_matrix :: "string \<Rightarrow> nat \<Rightarrow> nat \<Rightarrow> nat \<Rightarrow> string list" where
  "build_matrix plaintext num_cols 0 index = []"
| "build_matrix plaintext num_cols (Suc n) index =
     map (\<lambda>j. plaintext ! (index + j)) [0..<num_cols]
       # build_matrix plaintext num_cols n (index + num_cols)"

subsection \<open>Route (spiral)\<close>

text \<open>
  One lap of the \<^verbatim>\<open>while\<close> loop reads the top row, the right column, the bottom row when
  \<^verbatim>\<open>top <= bottom\<close> still holds, and the left column when \<^verbatim>\<open>left <= right\<close> still holds.
  \<^verbatim>\<open>range(right, left - 1, -1)\<close> is \<open>rev [left..right]\<close>. The bounds are Python integers:
  \<^verbatim>\<open>right\<close> and \<^verbatim>\<open>bottom\<close> may reach \<open>-1\<close>. The variable \<^verbatim>\<open>top\<close> is written \<open>top_row\<close>
  (\<open>top\<close> is a constant of HOL).
\<close>

function route_read :: "string list \<Rightarrow> int \<Rightarrow> int \<Rightarrow> int \<Rightarrow> int \<Rightarrow> string \<Rightarrow> string" where
  "route_read matrix top_row bottom left right result =
     (if top_row \<le> bottom \<and> left \<le> right then
        let result = result @ map (\<lambda>i. matrix ! nat top_row ! nat i) [left..right];
            top_row = top_row + 1;
            result = result @ map (\<lambda>i. matrix ! nat i ! nat right) [top_row..bottom];
            right = right - 1;
            result = (if top_row \<le> bottom
                      then result @ map (\<lambda>i. matrix ! nat bottom ! nat i) (rev [left..right])
                      else result);
            bottom = (if top_row \<le> bottom then bottom - 1 else bottom);
            result = (if left \<le> right
                      then result @ map (\<lambda>i. matrix ! nat i ! nat left) (rev [top_row..bottom])
                      else result);
            left = (if left \<le> right then left + 1 else left)
        in route_read matrix top_row bottom left right result
      else result)"
  by pat_completeness auto
termination
  by (relation "measure (\<lambda>(matrix, top_row, bottom, left, right, result). nat (bottom + 1 - top_row))")
    auto

definition route_cipher_encrypt :: "string \<Rightarrow> int \<Rightarrow> int \<Rightarrow> string" where
  "route_cipher_encrypt plaintext rows cols =
     (let total = rows * cols;
          plaintext = ljust plaintext total CHR ''X'';
          matrix = build_matrix plaintext (nat cols) (nat rows) 0
      in route_read matrix 0 (rows - 1) 0 (cols - 1) [])"

text \<open>
  The decoder's grid starts as \<^verbatim>\<open>[[None] * cols for _ in range(rows)]\<close>: a cell is \<open>None\<close>
  or a character. Each of the four \<^verbatim>\<open>for\<close> loops writes \<^verbatim>\<open>ciphertext[index]\<close> into a run
  of cells and advances \<^verbatim>\<open>index\<close>; a read past the end of the ciphertext raises
  \<^verbatim>\<open>IndexError\<close>.
\<close>

fun route_put ::
  "string \<Rightarrow> (int \<times> int) list \<Rightarrow> char option list list \<times> nat
     \<Rightarrow> py_error + char option list list \<times> nat" where
  "route_put ciphertext [] s = Inr s"
| "route_put ciphertext ((r, c) # cells) (matrix, index) =
     (if index < length ciphertext
      then route_put ciphertext cells
             (matrix[nat r := (matrix ! nat r)[nat c := Some (ciphertext ! index)]], index + 1)
      else Inl IndexError)"

function route_write ::
  "string \<Rightarrow> int \<Rightarrow> int \<Rightarrow> int \<Rightarrow> int \<Rightarrow> char option list list \<times> nat
     \<Rightarrow> py_error + char option list list \<times> nat" where
  "route_write ciphertext top_row bottom left right s =
     (if top_row \<le> bottom \<and> left \<le> right then
        case route_put ciphertext (map (\<lambda>i. (top_row, i)) [left..right]) s of
          Inl e \<Rightarrow> Inl e
        | Inr s \<Rightarrow>
        let top_row = top_row + 1 in
        case route_put ciphertext (map (\<lambda>i. (i, right)) [top_row..bottom]) s of
          Inl e \<Rightarrow> Inl e
        | Inr s \<Rightarrow>
        let right = right - 1 in
        case (if top_row \<le> bottom
              then route_put ciphertext (map (\<lambda>i. (bottom, i)) (rev [left..right])) s
              else Inr s) of
          Inl e \<Rightarrow> Inl e
        | Inr s \<Rightarrow>
        let bottom = (if top_row \<le> bottom then bottom - 1 else bottom) in
        case (if left \<le> right
              then route_put ciphertext (map (\<lambda>i. (i, left)) (rev [top_row..bottom])) s
              else Inr s) of
          Inl e \<Rightarrow> Inl e
        | Inr s \<Rightarrow>
        let left = (if left \<le> right then left + 1 else left)
        in route_write ciphertext top_row bottom left right s
      else Inr s)"
  by pat_completeness auto
termination
  by (relation "measure (\<lambda>(ciphertext, top_row, bottom, left, right, s). nat (bottom + 1 - top_row))")
    auto

text \<open>\<^verbatim>\<open>''.join(''.join(row) for row in matrix)\<close>: joining a \<open>None\<close> cell raises \<^verbatim>\<open>TypeError\<close>.\<close>

definition join_cells :: "char option list list \<Rightarrow> py_error + string" where
  "join_cells matrix =
     (if \<forall>row \<in> set matrix. \<forall>cell \<in> set row. cell \<noteq> None
      then Inr (concat (map (map the) matrix))
      else Inl TypeError)"

definition route_cipher_decrypt :: "string \<Rightarrow> int \<Rightarrow> int \<Rightarrow> py_error + string" where
  "route_cipher_decrypt ciphertext rows cols =
     (let matrix = replicate (nat rows) (replicate (nat cols) None)
      in case route_write ciphertext 0 (rows - 1) 0 (cols - 1) (matrix, 0) of
           Inl e \<Rightarrow> Inl e
         | Inr (matrix, index) \<Rightarrow> join_cells matrix)"

subsection \<open>Columnar transposition\<close>

text \<open>\<^verbatim>\<open>sorted(list(enumerate(key)), key=lambda x: (x[1], x[0]))\<close>\<close>

definition key_order :: "string \<Rightarrow> (nat \<times> char) list" where
  "key_order key = sort_key (\<lambda>x. (snd x, fst x)) (enumerate 0 key)"

definition columnar_transposition_encrypt :: "string \<Rightarrow> string \<Rightarrow> py_error + string" where
  "columnar_transposition_encrypt plaintext key =
     (let num_cols = length key in
      if num_cols = 0 then Inl ZeroDivisionError
      else
        let num_rows = (length plaintext + num_cols - 1) div num_cols;
            total = num_rows * num_cols;
            plaintext = ljust plaintext (int total) CHR ''X'';
            matrix = build_matrix plaintext num_cols num_rows 0;
            order = key_order key
        in Inr (concat (map (\<lambda>(col_index, _). map (\<lambda>row. row ! col_index) matrix) order)))"

text \<open>
  The decoder's grid holds strings: \<^verbatim>\<open>''\<close> at first, then one character per cell. Its state
  is the grid and the read position \<^verbatim>\<open>index\<close>.
\<close>

definition columnar_fill ::
  "string \<Rightarrow> nat \<Rightarrow> (nat \<times> char) list \<Rightarrow> string list list \<times> nat \<Rightarrow> string list list \<times> nat" where
  "columnar_fill ciphertext num_rows order =
     fold (\<lambda>(col_index, _).
       fold (\<lambda>r (matrix, index).
              (matrix[r := (matrix ! r)[col_index := [ciphertext ! index]]], index + 1))
            [0..<num_rows]) order"

definition columnar_transposition_decrypt :: "string \<Rightarrow> string \<Rightarrow> py_error + string" where
  "columnar_transposition_decrypt ciphertext key =
     (let num_cols = length key in
      if num_cols = 0 then Inl ZeroDivisionError
      else
        let num_rows = length ciphertext div num_cols;
            order = key_order key;
            matrix = replicate num_rows (replicate num_cols '''');
            (matrix, index) = columnar_fill ciphertext num_rows order (matrix, 0)
        in Inr (rstrip (concat (concat matrix)) CHR ''X''))"

subsection \<open>Double transposition\<close>

definition double_transposition_encrypt :: "string \<Rightarrow> string \<Rightarrow> string \<Rightarrow> py_error + string" where
  "double_transposition_encrypt plaintext key1 key2 =
     (case columnar_transposition_encrypt plaintext key1 of
        Inl e \<Rightarrow> Inl e
      | Inr first_pass \<Rightarrow> columnar_transposition_encrypt first_pass key2)"

definition double_transposition_decrypt :: "string \<Rightarrow> string \<Rightarrow> string \<Rightarrow> py_error + string" where
  "double_transposition_decrypt ciphertext key1 key2 =
     (case columnar_transposition_decrypt ciphertext key2 of
        Inl e \<Rightarrow> Inl e
      | Inr first_pass \<Rightarrow> columnar_transposition_decrypt first_pass key1)"

subsection \<open>Myszkowski transposition\<close>

text \<open>
  The dictionaries \<^verbatim>\<open>groups\<close> and \<^verbatim>\<open>group_cipher\<close> are association lists in insertion
  order. \<^verbatim>\<open>groups.setdefault(letter, []).append(idx)\<close> is \<open>setdefault_append\<close>;
  \<^verbatim>\<open>d[k]\<close> is \<open>lookup\<close>, called only with keys that the loop before has stored.
\<close>

fun setdefault_append :: "('k \<times> nat list) list \<Rightarrow> 'k \<Rightarrow> nat \<Rightarrow> ('k \<times> nat list) list" where
  "setdefault_append [] letter idx = [(letter, [idx])]"
| "setdefault_append ((k, cols) # groups) letter idx =
     (if k = letter then (k, cols @ [idx]) # groups
      else (k, cols) # setdefault_append groups letter idx)"

definition lookup :: "('k \<times> 'v) list \<Rightarrow> 'k \<Rightarrow> 'v" where
  "lookup d k = the (map_of d k)"

definition key_groups :: "string \<Rightarrow> (char \<times> nat list) list" where
  "key_groups key =
     fold (\<lambda>(idx, letter) groups. setdefault_append groups letter idx) (enumerate 0 key) []"

definition myszkowski_encrypt :: "string \<Rightarrow> string \<Rightarrow> py_error + string" where
  "myszkowski_encrypt plaintext key =
     (let num_cols = length key in
      if num_cols = 0 then Inl ZeroDivisionError
      else
        let num_rows = (length plaintext + num_cols - 1) div num_cols;
            total = num_rows * num_cols;
            plaintext = ljust plaintext (int total) CHR ''X'';
            matrix = build_matrix plaintext num_cols num_rows 0;
            groups = key_groups key
        in Inr (concat (map (\<lambda>letter.
                  let cols = lookup groups letter in
                  if length cols = 1
                  then map (\<lambda>r. matrix ! r ! (cols ! 0)) [0..<num_rows]
                  else concat (map (\<lambda>r. map (\<lambda>col. matrix ! r ! col) cols) [0..<num_rows]))
                (sort (map fst groups)))))"

text \<open>The first loop of the decoder: the state is \<^verbatim>\<open>group_cipher\<close> and \<^verbatim>\<open>cipher_remainder\<close>.\<close>

definition myszkowski_slices ::
  "(char \<times> nat list) list \<Rightarrow> nat \<Rightarrow> string \<Rightarrow> (char \<times> string) list \<times> string" where
  "myszkowski_slices groups num_rows ciphertext =
     fold (\<lambda>letter (group_cipher, cipher_remainder).
             let cols = lookup groups letter;
                 len = (if length cols = 1 then num_rows else num_rows * length cols)
             in (group_cipher @ [(letter, take len cipher_remainder)], drop len cipher_remainder))
          (sort (map fst groups)) ([], ciphertext)"

text \<open>The second loop: one group's text is written back into its columns.\<close>

definition myszkowski_fill ::
  "(char \<times> nat list) list \<Rightarrow> (char \<times> string) list \<Rightarrow> nat \<Rightarrow> string list list \<Rightarrow> string list list" where
  "myszkowski_fill groups group_cipher num_rows =
     fold (\<lambda>letter matrix.
             let cols = lookup groups letter in
             if length cols = 1
             then (let col = cols ! 0; text = lookup group_cipher letter
                   in fold (\<lambda>r matrix. matrix[r := (matrix ! r)[col := [text ! r]]])
                        [0..<num_rows] matrix)
             else (let text = lookup group_cipher letter; chunk_size = length cols
                   in fold (\<lambda>r matrix.
                        let chunk = drop (r * chunk_size) (take ((r + 1) * chunk_size) text)
                        in fold (\<lambda>(j, col) matrix. matrix[r := (matrix ! r)[col := [chunk ! j]]])
                             (enumerate 0 cols) matrix)
                        [0..<num_rows] matrix))
          (sort (map fst groups))"

definition myszkowski_decrypt :: "string \<Rightarrow> string \<Rightarrow> py_error + string" where
  "myszkowski_decrypt ciphertext key =
     (let num_cols = length key in
      if num_cols = 0 then Inl ZeroDivisionError
      else
        let num_rows = length ciphertext div num_cols;
            groups = key_groups key;
            (group_cipher, cipher_remainder) = myszkowski_slices groups num_rows ciphertext;
            matrix = replicate num_rows (replicate num_cols '''');
            matrix = myszkowski_fill groups group_cipher num_rows matrix;
            plaintext = concat (map concat matrix)
        in Inr (rstrip plaintext CHR ''X''))"

subsection \<open>Disruptive transposition\<close>

text \<open>
  \<^verbatim>\<open>random.Random(seed).shuffle(perm)\<close> belongs to Python's standard library, not to the
  module: it is the parameter \<open>shuffle\<close>, which maps the seed and a list to the shuffled
  list. The library's contract, that the result is a rearrangement of the list, is a
  hypothesis of the theorems that need it.
\<close>

definition key_seed :: "string \<Rightarrow> int" where
  "key_seed key = sum_list (map ord key)"

definition disruptive_transposition_encrypt ::
  "(int \<Rightarrow> nat list \<Rightarrow> nat list) \<Rightarrow> string \<Rightarrow> string \<Rightarrow> string" where
  "disruptive_transposition_encrypt shuffle text key =
     (let seed = key_seed key;
          perm = shuffle seed [0..<length text];
          ciphertext_chars =
            fold (\<lambda>(i, char) ciphertext_chars. ciphertext_chars[perm ! i := [char]])
                 (enumerate 0 text) (replicate (length text) '''')
      in concat ciphertext_chars)"

definition disruptive_transposition_decrypt ::
  "(int \<Rightarrow> nat list \<Rightarrow> nat list) \<Rightarrow> string \<Rightarrow> string \<Rightarrow> string" where
  "disruptive_transposition_decrypt shuffle ciphertext key =
     (let seed = key_seed key;
          perm = shuffle seed [0..<length ciphertext];
          inv_perm = fold (\<lambda>(i, p) inv_perm. inv_perm[p := i]) (enumerate 0 perm)
                       (replicate (length ciphertext) 0);
          plaintext_chars =
            fold (\<lambda>(i, char) plaintext_chars. plaintext_chars[inv_perm ! i := [char]])
                 (enumerate 0 ciphertext) (replicate (length ciphertext) '''')
      in concat plaintext_chars)"

section \<open>Substitution ciphers\<close>

subsection \<open>Character classes\<close>

text \<open>
  \<^verbatim>\<open>'A' <= char <= 'Z'\<close> compares code points. \<^verbatim>\<open>str.isalpha\<close> and \<^verbatim>\<open>str.lower\<close> are given
  for every code point below 256 (the letters there are A-Z, a-z, U+00AA, U+00B5, U+00BA,
  U+00C0-U+00D6, U+00D8-U+00F6 and U+00F8-U+00FF; lower-casing maps the range into itself).
  \<^verbatim>\<open>str.upper\<close> is given on ASCII, where it maps a-z to A-Z and keeps every other character;
  beyond ASCII it can lengthen a string (U+00DF) or leave the range (U+00FF), and every
  theorem below that goes through \<open>str_upper\<close> is about ASCII text.
\<close>

definition is_ascii :: "char \<Rightarrow> bool" where
  "is_ascii c = (ord c < 128)"

definition in_A_Z :: "char \<Rightarrow> bool" where
  "in_A_Z c = (ord CHR ''A'' \<le> ord c \<and> ord c \<le> ord CHR ''Z'')"

definition isalpha :: "char \<Rightarrow> bool" where
  "isalpha c =
     (let n = ord c
      in (65 \<le> n \<and> n \<le> 90) \<or> (97 \<le> n \<and> n \<le> 122) \<or> n = 170 \<or> n = 181 \<or> n = 186
         \<or> (192 \<le> n \<and> n \<le> 214) \<or> (216 \<le> n \<and> n \<le> 246) \<or> (248 \<le> n \<and> n \<le> 255))"

definition char_lower :: "char \<Rightarrow> char" where
  "char_lower c =
     (let n = ord c
      in if (65 \<le> n \<and> n \<le> 90) \<or> (192 \<le> n \<and> n \<le> 214) \<or> (216 \<le> n \<and> n \<le> 222)
         then chr (n + 32) else c)"

definition char_upper :: "char \<Rightarrow> char" where
  "char_upper c = (let n = ord c in if 97 \<le> n \<and> n \<le> 122 then chr (n - 32) else c)"

definition str_lower :: "string \<Rightarrow> string" where
  "str_lower s = map char_lower s"

definition str_upper :: "string \<Rightarrow> string" where
  "str_upper s = map char_upper s"

text \<open>\<^verbatim>\<open>s.replace('j', 'i')\<close>\<close>

definition replace_j :: "string \<Rightarrow> string" where
  "replace_j s = map (\<lambda>c. if c = CHR ''j'' then CHR ''i'' else c) s"

subsection \<open>Additive, multiplicative and affine ciphers\<close>

text \<open>
  A function that prints returns the pair of the lines it has printed and its return
  value. The loops \<^verbatim>\<open>for char in text: result += ...\<close> are maps over the text. The
  variable \<^verbatim>\<open>inverse\<close> is written \<open>inverse'\<close> (\<open>inverse\<close> is a constant of HOL).
\<close>

definition additive_encrypt :: "string \<Rightarrow> int \<Rightarrow> string" where
  "additive_encrypt text key =
     (let text = str_upper text
      in map (\<lambda>char. if in_A_Z char
                      then chr (((ord char - ord CHR ''A'' + key) mod 26) + ord CHR ''A'')
                      else char) text)"

definition additive_decrypt :: "string \<Rightarrow> int \<Rightarrow> string" where
  "additive_decrypt text key = additive_encrypt text (- key)"

definition multiplicative_encrypt :: "string \<Rightarrow> int \<Rightarrow> string list \<times> string" where
  "multiplicative_encrypt text key =
     (if gcd key 26 \<noteq> 1 then ([''Error: The key must be coprime with 26.''], '''')
      else
        let text = str_upper text
        in ([], map (\<lambda>char. if in_A_Z char
                             then chr ((((ord char - ord CHR ''A'') * key) mod 26) + ord CHR ''A'')
                             else char) text))"

definition multiplicative_decrypt :: "string \<Rightarrow> int \<Rightarrow> py_error + string list \<times> string" where
  "multiplicative_decrypt text key =
     (if gcd key 26 \<noteq> 1 then Inr ([''Error: The key must be coprime with 26.''], '''')
      else
        case mod_inv key 26 of
          Inl e \<Rightarrow> Inl e
        | Inr None \<Rightarrow> Inr ([''Error: No modular inverse' for this key!''], '''')
        | Inr (Some inverse') \<Rightarrow>
            let text = str_upper text
            in Inr ([], map (\<lambda>char. if in_A_Z char
                     then chr ((((ord char - ord CHR ''A'') * inverse') mod 26) + ord CHR ''A'')
                     else char) text))"

definition affine_encrypt :: "string \<Rightarrow> int \<Rightarrow> int \<Rightarrow> string list \<times> string" where
  "affine_encrypt text a b =
     (if gcd a 26 \<noteq> 1 then ([''Error: Key 'a' must be coprime with 26.''], '''')
      else
        let text = str_upper text
        in ([], map (\<lambda>char. if in_A_Z char
                             then chr (((a * (ord char - 65) + b) mod 26) + 65)
                             else char) text))"

definition affine_decrypt :: "string \<Rightarrow> int \<Rightarrow> int \<Rightarrow> py_error + string list \<times> string" where
  "affine_decrypt text a b =
     (if gcd a 26 \<noteq> 1 then Inr ([''Error: Key 'a' must be coprime with 26.''], '''')
      else
        case mod_inv a 26 of
          Inl e \<Rightarrow> Inl e
        | Inr None \<Rightarrow> Inr ([''Error: No modular inverse' found for 'a'.''], '''')
        | Inr (Some inverse') \<Rightarrow>
            let text = str_upper text
            in Inr ([], map (\<lambda>char. if in_A_Z char
                     then chr ((inverse' * ((ord char - 65) - b) mod 26) + 65)
                     else char) text))"

subsection \<open>Playfair\<close>

text \<open>
  The table is a list of five rows. The key loop keeps the set \<^verbatim>\<open>seen\<close> and the list
  \<^verbatim>\<open>table\<close>; the alphabet loop reads \<^verbatim>\<open>seen\<close> without changing it.
  \<^verbatim>\<open>table[i*5:(i+1)*5]\<close> is a slice: \<open>take 5 (drop (i * 5) table)\<close>.
\<close>

definition generate_key_table :: "string \<Rightarrow> string list" where
  "generate_key_table key =
     (let key = replace_j (str_lower key);
          (seen, table) =
            fold (\<lambda>char (seen, table).
                    if isalpha char \<and> char \<notin> seen then (insert char seen, table @ [char])
                    else (seen, table))
                 key ({}, []);
          table = fold (\<lambda>char table. if char \<notin> seen then table @ [char] else table)
                    ''abcdefghiklmnopqrstuvwxyz'' table
      in map (\<lambda>i. take 5 (drop (i * 5) table)) [0..<5])"

text \<open>\<^verbatim>\<open>row.index(letter)\<close>, called when \<^verbatim>\<open>letter in row\<close> holds.\<close>

fun index_of :: "'a \<Rightarrow> 'a list \<Rightarrow> nat" where
  "index_of x [] = 0"
| "index_of x (y # ys) = (if y = x then 0 else Suc (index_of x ys))"

fun find_in_rows :: "char \<Rightarrow> (nat \<times> string) list \<Rightarrow> (nat \<times> nat) option" where
  "find_in_rows letter [] = None"
| "find_in_rows letter ((i, row) # rows) =
     (if letter \<in> set row then Some (i, index_of letter row) else find_in_rows letter rows)"

definition find_position :: "char \<Rightarrow> string list \<Rightarrow> (nat \<times> nat) option" where
  "find_position letter table =
     (case replace_j (str_lower [letter]) of
        [letter] \<Rightarrow> find_in_rows letter (enumerate 0 table)
      | _ \<Rightarrow> None)"

text \<open>The digraph loop of the encoder, by recursion on the text from position \<^verbatim>\<open>i\<close> on.\<close>

fun make_digraphs :: "string \<Rightarrow> string list" where
  "make_digraphs [] = []"
| "make_digraphs [a] = [[a, CHR ''x'']]"
| "make_digraphs (a # b # rest) =
     (if a = b then [a, CHR ''x''] # make_digraphs (b # rest)
      else [a, b] # make_digraphs rest)"

text \<open>\<^verbatim>\<open>[ciphertext[i:i+2] for i in range(0, len(ciphertext), 2)]\<close>\<close>

fun split_pairs :: "string \<Rightarrow> string list" where
  "split_pairs [] = []"
| "split_pairs [a] = [[a]]"
| "split_pairs (a # b # rest) = [a, b] # split_pairs rest"

text \<open>
  One digraph: \<^verbatim>\<open>pair[1]\<close> raises \<^verbatim>\<open>IndexError\<close> on a one-letter slice, and unpacking the
  \<^verbatim>\<open>None\<close> of \<^verbatim>\<open>find_position\<close> raises \<^verbatim>\<open>TypeError\<close>. \<open>shift\<close> is \<open>1\<close> for the encoder and
  \<open>-1\<close> for the decoder; \<^verbatim>\<open>%\<close> is floored.
\<close>

definition playfair_pair :: "int \<Rightarrow> string list \<Rightarrow> string \<Rightarrow> py_error + string" where
  "playfair_pair shift table pair =
     (case pair of
        a # b # _ \<Rightarrow>
          (case find_position a table of
             None \<Rightarrow> Inl TypeError
           | Some (row1, col1) \<Rightarrow>
          (case find_position b table of
             None \<Rightarrow> Inl TypeError
           | Some (row2, col2) \<Rightarrow>
               if row1 = row2
               then Inr [table ! row1 ! nat ((int col1 + shift) mod 5),
                         table ! row2 ! nat ((int col2 + shift) mod 5)]
               else if col1 = col2
               then Inr [table ! nat ((int row1 + shift) mod 5) ! col1,
                         table ! nat ((int row2 + shift) mod 5) ! col2]
               else Inr [table ! row1 ! col2, table ! row2 ! col1]))
      | _ \<Rightarrow> Inl IndexError)"

fun playfair_pairs :: "int \<Rightarrow> string list \<Rightarrow> string list \<Rightarrow> py_error + string" where
  "playfair_pairs shift table [] = Inr []"
| "playfair_pairs shift table (pair # digraphs) =
     (case playfair_pair shift table pair of
        Inl e \<Rightarrow> Inl e
      | Inr s \<Rightarrow>
          (case playfair_pairs shift table digraphs of
             Inl e \<Rightarrow> Inl e
           | Inr result \<Rightarrow> Inr (s @ result)))"

definition playfair_encrypt :: "string \<Rightarrow> string \<Rightarrow> py_error + string" where
  "playfair_encrypt plaintext key =
     (let table = generate_key_table key;
          plaintext = replace_j (str_lower plaintext);
          plaintext = filter isalpha plaintext;
          digraphs = make_digraphs plaintext
      in case playfair_pairs 1 table digraphs of
           Inl e \<Rightarrow> Inl e
         | Inr result \<Rightarrow> Inr (str_upper result))"

definition playfair_decrypt :: "string \<Rightarrow> string \<Rightarrow> py_error + string" where
  "playfair_decrypt ciphertext key =
     (let table = generate_key_table key;
          ciphertext = replace_j (str_lower ciphertext);
          ciphertext = filter isalpha ciphertext;
          digraphs = split_pairs ciphertext
      in case playfair_pairs (- 1) table digraphs of
           Inl e \<Rightarrow> Inl e
         | Inr result \<Rightarrow> Inr (str_upper result))"

subsection \<open>Hill cipher with a 2x2 key matrix\<close>

text \<open>
  The key \<^verbatim>\<open>[[m00, m01], [m10, m11]]\<close>, as \<^verbatim>\<open>main\<close> builds it from four integers, is the pair
  of its rows. \<open>hill_blocks\<close> is the loop over \<^verbatim>\<open>range(0, len(text), 2)\<close> that both
  functions share: \<^verbatim>\<open>pair[1]\<close> raises \<^verbatim>\<open>IndexError\<close> on a last block of one letter.
\<close>

type_synonym key_matrix = "(int \<times> int) \<times> (int \<times> int)"

fun hill_blocks :: "key_matrix \<Rightarrow> string \<Rightarrow> py_error + string" where
  "hill_blocks m [] = Inr []"
| "hill_blocks m [c] = Inl IndexError"
| "hill_blocks m (c0 # c1 # text) =
     (let vector0 = ord c0 - 65;
          vector1 = ord c1 - 65;
          num1 = (fst (fst m) * vector0 + snd (fst m) * vector1) mod 26;
          num2 = (fst (snd m) * vector0 + snd (snd m) * vector1) mod 26
      in case hill_blocks m text of
           Inl e \<Rightarrow> Inl e
         | Inr result \<Rightarrow> Inr (chr (num1 + 65) # chr (num2 + 65) # result))"

definition hill_encrypt :: "string \<Rightarrow> key_matrix \<Rightarrow> py_error + string" where
  "hill_encrypt plaintext key_matrix =
     (let text = filter isalpha (str_upper plaintext);
          text = (if length text mod 2 \<noteq> 0 then text @ ''X'' else text)
      in hill_blocks key_matrix text)"

definition hill_decrypt :: "string \<Rightarrow> key_matrix \<Rightarrow> py_error + string list \<times> string" where
  "hill_decrypt ciphertext key_matrix =
     (let det = fst (fst key_matrix) * snd (snd key_matrix)
                  - snd (fst key_matrix) * fst (snd key_matrix);
          det = det mod 26
      in case mod_inv det 26 of
           Inl e \<Rightarrow> Inl e
         | Inr None \<Rightarrow> Inr ([''Error: Key matrix is not invertible modulo 26!''], '''')
         | Inr (Some inv_det) \<Rightarrow>
             let inv_matrix =
                   (((snd (snd key_matrix) * inv_det) mod 26,
                     (- snd (fst key_matrix) * inv_det) mod 26),
                    ((- fst (snd key_matrix) * inv_det) mod 26,
                     (fst (fst key_matrix) * inv_det) mod 26));
                 text = filter isalpha (str_upper ciphertext)
             in case hill_blocks inv_matrix text of
                  Inl e \<Rightarrow> Inl e
                | Inr result \<Rightarrow> Inr ([], result))"

section \<open>Auxiliary notions of the proofs\<close>

text \<open>
  The three letter-by-letter ciphers share one shape: a letter \<open>A..Z\<close> with number \<open>p\<close>
  becomes the letter with number \<open>f p mod 26\<close>, and any other character is kept.
\<close>

definition letterwise :: "(int \<Rightarrow> int) \<Rightarrow> char \<Rightarrow> char" where
  "letterwise f c = (if in_A_Z c then chr (f (ord c - 65) mod 26 + 65) else c)"

definition rail_part :: "int list \<Rightarrow> 'a list \<Rightarrow> int \<Rightarrow> 'a list" where
  "rail_part p xs r = map fst (filter (\<lambda>(x, q). q = r) (zip xs p))"

definition zigzag_ok :: "int \<Rightarrow> int \<Rightarrow> int \<Rightarrow> bool" where
  "zigzag_ok n rail direction \<longleftrightarrow>
     0 \<le> rail \<and> rail \<le> n - 1 \<and> (direction = 1 \<or> direction = - 1)
     \<and> (rail = 0 \<longrightarrow> direction = 1) \<and> (rail = n - 1 \<longrightarrow> direction = - 1)"

definition fill_cols :: "string \<Rightarrow> nat \<Rightarrow> nat list \<Rightarrow> string list list \<times> nat \<Rightarrow> string list list \<times> nat" where
  "fill_cols ct nr cols =
     fold (\<lambda>ci. fold (\<lambda>r (matrix, index).
                        (matrix[r := (matrix ! r)[ci := [ct ! index]]], index + 1)) [0..<nr]) cols"

definition key_cols :: "string \<Rightarrow> char \<Rightarrow> nat list" where
  "key_cols key letter = filter (\<lambda>i. key ! i = letter) [0..<length key]"

definition key_letters :: "string \<Rightarrow> string" where
  "key_letters key = sort (map fst (key_groups key))"

definition group_block :: "string \<Rightarrow> nat \<Rightarrow> nat \<Rightarrow> nat list \<Rightarrow> string" where
  "group_block p nc nr cols = concat (map (\<lambda>r. map (\<lambda>col. p ! (r * nc + col)) cols) [0..<nr])"

definition group_write :: "nat list \<Rightarrow> string \<Rightarrow> nat \<Rightarrow> string list list \<Rightarrow> string list list" where
  "group_write cols text nr matrix =
     (if length cols = 1
      then (let col = cols ! 0
            in fold (\<lambda>r matrix. matrix[r := (matrix ! r)[col := [text ! r]]]) [0..<nr] matrix)
      else (let chunk_size = length cols
            in fold (\<lambda>r matrix.
                 let chunk = drop (r * chunk_size) (take ((r + 1) * chunk_size) text)
                 in fold (\<lambda>(j, col) matrix. matrix[r := (matrix ! r)[col := [chunk ! j]]])
                      (enumerate 0 cols) matrix)
                 [0..<nr] matrix))"

definition next_bottom :: "int \<Rightarrow> int \<Rightarrow> int" where
  "next_bottom top_row bottom = (if top_row + 1 \<le> bottom then bottom - 1 else bottom)"

definition next_left :: "int \<Rightarrow> int \<Rightarrow> int" where
  "next_left left right = (if left \<le> right - 1 then left + 1 else left)"

definition lap :: "int \<Rightarrow> int \<Rightarrow> int \<Rightarrow> int \<Rightarrow> (int \<times> int) list" where
  "lap top_row bottom left right =
     map (\<lambda>i. (top_row, i)) [left..right]
     @ map (\<lambda>i. (i, right)) [top_row + 1..bottom]
     @ (if top_row + 1 \<le> bottom then map (\<lambda>i. (bottom, i)) (rev [left..right - 1]) else [])
     @ (if left \<le> right - 1
        then map (\<lambda>i. (i, left)) (rev [top_row + 1..next_bottom top_row bottom])
        else [])"

function spiral :: "int \<Rightarrow> int \<Rightarrow> int \<Rightarrow> int \<Rightarrow> (int \<times> int) list" where
  "spiral top_row bottom left right =
     (if top_row \<le> bottom \<and> left \<le> right
      then lap top_row bottom left right
           @ spiral (top_row + 1) (next_bottom top_row bottom) (next_left left right) (right - 1)
      else [])"
  by pat_completeness auto
termination
  by (relation "measure (\<lambda>(top_row, bottom, left, right). nat (bottom + 1 - top_row))")
     (auto simp: next_bottom_def)

definition letters25 :: string where
  "letters25 = ''abcdefghiklmnopqrstuvwxyz''"

definition fold_j :: "char \<Rightarrow> char" where
  "fold_j c = (if char_lower c = CHR ''j'' then CHR ''i'' else char_lower c)"

definition flat_table :: "string \<Rightarrow> string" where
  "flat_table key =
     (let key = replace_j (str_lower key);
          (seen, table) =
            fold (\<lambda>char (seen, table).
                    if isalpha char \<and> char \<notin> seen then (insert char seen, table @ [char])
                    else (seen, table))
                 key ({}, [])
      in fold (\<lambda>char table. if char \<notin> seen then table @ [char] else table)
           letters25 table)"

section \<open>The modular inverse\<close>

lemma inverse_exists:
  fixes a m :: int
  assumes "2 \<le> m" and "gcd a m = 1"
  shows "\<exists>x. 1 \<le> x \<and> x < m \<and> (a * x) mod m = 1"
proof -
  obtain u v where uv: "u * a + v * m = 1"
    using bezout_int [of a m] assms(2) by auto
  define x where "x = u mod m"
  have "(a * x) mod m = (a * u) mod m"
    unfolding x_def by (simp add: mod_mult_right_eq)
  also have "a * u = 1 - v * m" using uv by (simp add: algebra_simps)
  also have "(1 - v * m) mod m = 1 mod m"
    by (metis diff_conv_add_uminus mod_mult_self1 mult_minus_left)
  also have "\<dots> = 1" using assms(1) by simp
  finally have ax: "(a * x) mod m = 1" .
  have "0 \<le> x" "x < m" unfolding x_def using assms(1) by simp_all
  moreover have "x \<noteq> 0" using ax by auto
  ultimately show ?thesis using ax by (intro exI [of _ x]) auto
qed

lemma inverse_unique:
  fixes a m :: int
  assumes "(a * x) mod m = 1" "(a * y) mod m = 1" "0 \<le> x" "x < m" "0 \<le> y" "y < m"
  shows "x = y"
proof -
  have "x mod m = (x * ((a * y) mod m)) mod m" using assms by simp
  also have "\<dots> = (x * (a * y)) mod m" by (simp add: mod_mult_right_eq)
  also have "\<dots> = (y * (a * x)) mod m" by (simp add: mult.left_commute mult.commute)
  also have "\<dots> = (y * ((a * x) mod m)) mod m" by (simp add: mod_mult_right_eq)
  also have "\<dots> = y mod m" using assms by simp
  finally show ?thesis using assms by simp
qed

lemma inverse_coprime:
  fixes a m :: int
  assumes "2 \<le> m" "(a * x) mod m = 1"
  shows "gcd a m = 1"
proof -
  have "gcd a m dvd a * x" by simp
  moreover have "gcd a m dvd m" by simp
  ultimately have "gcd a m dvd (a * x) mod m" by (simp add: dvd_mod)
  then show ?thesis using assms(2) by simp
qed

lemma mod_inv_find:
  "m \<noteq> 0 \<Longrightarrow> mod_inv a m = Inr (find (\<lambda>x. (a * x) mod m = 1) [1..m - 1])"
  by (simp add: mod_inv_def mod_mult_left_eq)

lemma mod_inv_None_iff:
  assumes "2 \<le> m"
  shows "mod_inv a m = Inr None \<longleftrightarrow> gcd a m \<noteq> 1"
proof
  assume "mod_inv a m = Inr None"
  then have none: "\<forall>x. 1 \<le> x \<and> x < m \<longrightarrow> (a * x) mod m \<noteq> 1"
    using assms by (auto simp: mod_inv_find find_None_iff)
  show "gcd a m \<noteq> 1"
    using inverse_exists [OF assms, of a] none by auto
next
  assume "gcd a m \<noteq> 1"
  then have "\<forall>x. (a * x) mod m \<noteq> 1" using inverse_coprime [OF assms] by blast
  then show "mod_inv a m = Inr None"
    using assms by (auto simp: mod_inv_find find_None_iff)
qed

lemma mod_inv_Some:
  assumes "m \<noteq> 0" "mod_inv a m = Inr (Some x)"
  shows "1 \<le> x \<and> x < m \<and> (a * x) mod m = 1"
proof -
  have "find (\<lambda>x. (a * x) mod m = 1) [1..m - 1] = Some x"
    using assms by (simp add: mod_inv_find)
  then have "x \<in> set [1..m - 1] \<and> (a * x) mod m = 1"
    by (auto simp: find_Some_iff)
  then show ?thesis by auto
qed

text \<open>
  Claim C6. For every integer \<open>a\<close> and every modulus \<open>m \<ge> 2\<close>: when \<open>gcd a m = 1\<close>,
  \<open>mod_inv a m\<close> returns the one \<open>x\<close> in \<open>[1, m)\<close> with \<open>(a * x) mod m = 1\<close>; when
  \<open>gcd a m \<noteq> 1\<close> it returns \<^verbatim>\<open>None\<close>. No exception is raised in either case.
\<close>

theorem mod_inv_spec:
  assumes "2 \<le> m"
  shows "(gcd a m = 1 \<longrightarrow>
            (\<exists>x. mod_inv a m = Inr (Some x) \<and> 1 \<le> x \<and> x < m \<and> (a * x) mod m = 1
               \<and> (\<forall>y. 1 \<le> y \<and> y < m \<and> (a * y) mod m = 1 \<longrightarrow> y = x)))
       \<and> (gcd a m \<noteq> 1 \<longrightarrow> mod_inv a m = Inr None)"
proof (intro conjI impI)
  assume cop: "gcd a m = 1"
  have m0: "m \<noteq> 0" using assms by simp
  have "mod_inv a m \<noteq> Inr None" using mod_inv_None_iff [OF assms] cop by simp
  then obtain x where x: "mod_inv a m = Inr (Some x)"
    using m0 by (auto simp: mod_inv_find)
  note px = mod_inv_Some [OF m0 x]
  have "\<forall>y. 1 \<le> y \<and> y < m \<and> (a * y) mod m = 1 \<longrightarrow> y = x"
    using inverse_unique [of a _ m x] px by auto
  with x px show "\<exists>x. mod_inv a m = Inr (Some x) \<and> 1 \<le> x \<and> x < m \<and> (a * x) mod m = 1
               \<and> (\<forall>y. 1 \<le> y \<and> y < m \<and> (a * y) mod m = 1 \<longrightarrow> y = x)" by blast
next
  assume "gcd a m \<noteq> 1"
  then show "mod_inv a m = Inr None" using mod_inv_None_iff [OF assms] by simp
qed

text \<open>The theorem at the modulus 26: 7 has the inverse 15, and 13 has none.\<close>

theorem mod_inv_spec_witness:
  "(2::int) \<le> 26 \<and> gcd (7::int) 26 = 1 \<and> mod_inv 7 26 = Inr (Some 15)
     \<and> (1::int) \<le> 15 \<and> (15::int) < 26 \<and> ((7::int) * 15) mod 26 = 1
     \<and> gcd (13::int) 26 \<noteq> 1 \<and> mod_inv 13 26 = Inr None"
proof -
  have m: "(2::int) \<le> 26" by simp
  have g7: "gcd (7::int) 26 = 1" by code_simp
  have g13: "gcd (13::int) 26 \<noteq> 1" by code_simp
  have v: "mod_inv 7 26 = Inr (Some 15)" by code_simp
  from mod_inv_spec [OF m, of 7] g7 v
  have "\<forall>y. 1 \<le> y \<and> y < 26 \<and> (7 * y) mod 26 = 1 \<longrightarrow> y = (15::int)" by simp
  moreover from mod_inv_spec [OF m, of 13] g13 have "mod_inv 13 26 = Inr None" by simp
  ultimately show ?thesis using g7 g13 v by simp
qed

section \<open>Characters and letters\<close>

lemma ord_bounds: "0 \<le> ord c \<and> ord c < 256"
proof -
  have "ord c = int (of_char c)" unfolding ord_def by (rule of_nat_of_char [symmetric])
  moreover have "(of_char c :: nat) < 256" by (rule nat_of_char_less_256)
  ultimately show ?thesis by simp
qed

lemma ord_chr: "0 \<le> n \<Longrightarrow> n < 256 \<Longrightarrow> ord (chr n) = n"
  by (simp add: ord_def chr_def of_char_of)

lemma chr_ord: "chr (ord c) = c"
  by (simp add: ord_def chr_def)

lemma ord_A: "ord CHR ''A'' = 65"
  by (simp add: ord_def)

lemma ord_Z: "ord CHR ''Z'' = 90"
  by (simp add: ord_def)

lemma in_A_Z_iff: "in_A_Z c \<longleftrightarrow> 65 \<le> ord c \<and> ord c \<le> 90"
  by (simp add: in_A_Z_def ord_A ord_Z)

lemma char_upper_idem: "char_upper (char_upper c) = char_upper c"
  using ord_bounds [of c] by (auto simp: char_upper_def Let_def ord_chr)

lemma char_upper_A_Z: "in_A_Z c \<Longrightarrow> char_upper c = c"
  by (simp add: char_upper_def in_A_Z_iff)

text \<open>The letter with number \<open>x mod 26\<close>.\<close>

lemma letter_chr:
  fixes x :: int
  shows "in_A_Z (chr (x mod 26 + 65))" and "ord (chr (x mod 26 + 65)) - 65 = x mod 26"
proof -
  have "0 \<le> x mod 26" "x mod 26 < 26" by simp_all
  then have "ord (chr (x mod 26 + 65)) = x mod 26 + 65" by (intro ord_chr) linarith+
  then show "in_A_Z (chr (x mod 26 + 65))" "ord (chr (x mod 26 + 65)) - 65 = x mod 26"
    by (simp_all add: in_A_Z_iff)
qed

lemma letterwise_round_trip:
  assumes inv: "\<And>p. 0 \<le> p \<Longrightarrow> p < 26 \<Longrightarrow> g (f p mod 26) mod 26 = p"
  shows "map (letterwise g) (str_upper (map (letterwise f) (str_upper text))) = str_upper text"
proof -
  have "letterwise g (char_upper (letterwise f (char_upper c))) = char_upper c" for c
  proof (cases "in_A_Z (char_upper c)")
    case True
    define p where "p = ord (char_upper c) - 65"
    have p: "0 \<le> p" "p < 26" using True by (simp_all add: p_def in_A_Z_iff)
    have e: "letterwise f (char_upper c) = chr (f p mod 26 + 65)"
      using True by (simp add: letterwise_def p_def)
    have "letterwise g (char_upper (chr (f p mod 26 + 65))) = chr (g (f p mod 26) mod 26 + 65)"
      using letter_chr [of "f p"] by (simp add: letterwise_def char_upper_A_Z)
    also have "\<dots> = chr (p + 65)" using inv [OF p] by simp
    also have "\<dots> = char_upper c" by (simp add: p_def chr_ord)
    finally show ?thesis using e by simp
  next
    case False
    then show ?thesis by (simp add: letterwise_def char_upper_idem)
  qed
  then show ?thesis by (simp add: str_upper_def)
qed

lemma additive_encrypt_letterwise:
  "additive_encrypt text key = map (letterwise (\<lambda>p. p + key)) (str_upper text)"
  by (simp add: additive_encrypt_def letterwise_def ord_A)

lemma additive_round_trip:
  "additive_decrypt (additive_encrypt text key) key = str_upper text"
  unfolding additive_decrypt_def additive_encrypt_letterwise
  by (rule letterwise_round_trip) (simp add: mod_simps)

lemma coprime_26_inverse:
  assumes "gcd a 26 = (1::int)"
  shows "\<exists>x. mod_inv a 26 = Inr (Some x) \<and> (a * x) mod 26 = 1"
proof -
  have "mod_inv a 26 \<noteq> Inr None" using mod_inv_None_iff [of 26 a] assms by simp
  then obtain x where x: "mod_inv a 26 = Inr (Some x)" by (auto simp: mod_inv_find)
  then show ?thesis using mod_inv_Some [of 26 a x] by simp
qed

lemma mult_cancel_26:
  fixes a x p :: int
  assumes "(a * x) mod 26 = 1" "0 \<le> p" "p < 26"
  shows "(p * a mod 26 * x) mod 26 = p"
proof -
  have "(p * a mod 26 * x) mod 26 = (p * (a * x)) mod 26"
    by (simp add: mod_simps mult.assoc)
  also have "\<dots> = (p * ((a * x) mod 26)) mod 26" by (simp add: mod_simps)
  also have "\<dots> = p" using assms by simp
  finally show ?thesis .
qed

lemma multiplicative_round_trip:
  assumes "gcd key 26 = 1"
  shows "multiplicative_decrypt (snd (multiplicative_encrypt text key)) key
           = Inr ([], str_upper text)"
proof -
  obtain x where x: "mod_inv key 26 = Inr (Some x)" "(key * x) mod 26 = 1"
    using coprime_26_inverse [OF assms] by blast
  have enc: "multiplicative_encrypt text key
               = ([], map (letterwise (\<lambda>p. p * key)) (str_upper text))"
    using assms by (simp add: multiplicative_encrypt_def letterwise_def ord_A)
  have dec: "multiplicative_decrypt c key = Inr ([], map (letterwise (\<lambda>p. p * x)) (str_upper c))"
    for c using assms x(1) by (simp add: multiplicative_decrypt_def letterwise_def ord_A)
  show ?thesis
    using letterwise_round_trip [of "\<lambda>p. p * x" "\<lambda>p. p * key" "text"] mult_cancel_26 [OF x(2)]
    unfolding enc dec snd_conv by simp
qed

lemma affine_cancel_26:
  fixes a b x p :: int
  assumes "(a * x) mod 26 = 1" "0 \<le> p" "p < 26"
  shows "(x * ((a * p + b) mod 26 - b)) mod 26 = p"
proof -
  have "(x * ((a * p + b) mod 26 - b)) mod 26 = (x * (a * p + b - b)) mod 26"
    by (metis mod_diff_left_eq mod_mult_right_eq)
  also have "\<dots> = (p * (a * x)) mod 26" by (simp add: mult.commute mult.left_commute)
  also have "\<dots> = (p * ((a * x) mod 26)) mod 26" by (simp add: mod_simps)
  also have "\<dots> = p" using assms by simp
  finally show ?thesis .
qed

lemma affine_round_trip:
  assumes "gcd a 26 = 1"
  shows "affine_decrypt (snd (affine_encrypt text a b)) a b = Inr ([], str_upper text)"
proof -
  obtain x where x: "mod_inv a 26 = Inr (Some x)" "(a * x) mod 26 = 1"
    using coprime_26_inverse [OF assms] by blast
  have enc: "affine_encrypt text a b = ([], map (letterwise (\<lambda>p. a * p + b)) (str_upper text))"
    using assms by (simp add: affine_encrypt_def letterwise_def)
  have dec: "affine_decrypt c a b = Inr ([], map (letterwise (\<lambda>p. x * (p - b))) (str_upper c))"
    for c using assms x(1) by (simp add: affine_decrypt_def letterwise_def)
  show ?thesis
    using letterwise_round_trip [of "\<lambda>p. x * (p - b)" "\<lambda>p. a * p + b" "text"]
      affine_cancel_26 [OF x(2)]
    unfolding enc dec snd_conv by simp
qed

lemma ascii_alpha_upper:
  assumes "is_ascii c" "isalpha (char_upper c)"
  shows "in_A_Z (char_upper c)"
proof (cases "97 \<le> ord c \<and> ord c \<le> 122")
  case True
  then have "ord (char_upper c) = ord c - 32"
    by (simp add: char_upper_def ord_chr)
  with True show ?thesis by (simp add: in_A_Z_iff)
next
  case False
  then have "char_upper c = c" by (auto simp: char_upper_def)
  with assms False show ?thesis
    by (auto simp: in_A_Z_iff isalpha_def is_ascii_def Let_def)
qed

lemma in_A_Z_isalpha: "in_A_Z c \<Longrightarrow> isalpha c"
  by (simp add: in_A_Z_iff isalpha_def)

lemma filter_upper_letters:
  assumes "\<forall>c \<in> set r. in_A_Z c"
  shows "filter isalpha (str_upper r) = r"
proof -
  have "str_upper r = r" using assms
    by (simp add: str_upper_def char_upper_A_Z map_idI)
  moreover have "filter isalpha r = r" using assms by (simp add: in_A_Z_isalpha)
  ultimately show ?thesis by simp
qed

lemma hill_blocks_even:
  "even (length t) \<Longrightarrow>
     \<exists>r. hill_blocks m t = Inr r \<and> length r = length t \<and> (\<forall>c \<in> set r. in_A_Z c)"
proof (induction m t rule: hill_blocks.induct)
  case (1 m)
  then show ?case by simp
next
  case (2 m c)
  then show ?case by simp
next
  case (3 m c0 c1 t)
  from "3.IH" [OF refl refl refl refl] "3.prems"
  obtain r where "hill_blocks m t = Inr r" "length r = length t" "\<forall>c \<in> set r. in_A_Z c"
    by auto
  then show ?case by (simp add: Let_def letter_chr(1))
qed

lemma hill_blocks_inverse:
  assumes inv: "\<And>v0 v1. 0 \<le> v0 \<Longrightarrow> v0 < 26 \<Longrightarrow> 0 \<le> v1 \<Longrightarrow> v1 < 26 \<Longrightarrow>
      (fst (fst m') * ((fst (fst m) * v0 + snd (fst m) * v1) mod 26)
        + snd (fst m') * ((fst (snd m) * v0 + snd (snd m) * v1) mod 26)) mod 26 = v0
    \<and> (fst (snd m') * ((fst (fst m) * v0 + snd (fst m) * v1) mod 26)
        + snd (snd m') * ((fst (snd m) * v0 + snd (snd m) * v1) mod 26)) mod 26 = v1"
  shows "even (length t) \<Longrightarrow> \<forall>c \<in> set t. in_A_Z c \<Longrightarrow> hill_blocks m t = Inr r
           \<Longrightarrow> hill_blocks m' r = Inr t"
proof (induction t arbitrary: r rule: induct_list012)
  case 1
  then show ?case by simp
next
  case (2 c)
  then show ?case by simp
next
  case (3 c0 c1 t)
  have ev: "even (length t)" using "3.prems"(1) by simp
  obtain r' where r': "hill_blocks m t = Inr r'"
    using hill_blocks_even [OF ev, of m] by auto
  define v0 where "v0 = ord c0 - 65"
  define v1 where "v1 = ord c1 - 65"
  have v: "0 \<le> v0" "v0 < 26" "0 \<le> v1" "v1 < 26"
    using "3.prems"(2) by (simp_all add: v0_def v1_def in_A_Z_iff)
  define n1 where "n1 = (fst (fst m) * v0 + snd (fst m) * v1) mod 26"
  define n2 where "n2 = (fst (snd m) * v0 + snd (snd m) * v1) mod 26"
  have r: "r = chr (n1 + 65) # chr (n2 + 65) # r'"
    using "3.prems"(3) r' by (simp add: Let_def v0_def v1_def n1_def n2_def)
  have ih: "hill_blocks m' r' = Inr t"
    using "3.IH"(1) [OF ev _ r'] "3.prems"(2) by simp
  have o1: "ord (chr (n1 + 65)) - 65 = n1" unfolding n1_def by (rule letter_chr(2))
  have o2: "ord (chr (n2 + 65)) - 65 = n2" unfolding n2_def by (rule letter_chr(2))
  have undo1: "(fst (fst m') * n1 + snd (fst m') * n2) mod 26 = v0"
    using inv [OF v] unfolding n1_def n2_def by (rule conjunct1)
  have undo2: "(fst (snd m') * n1 + snd (snd m') * n2) mod 26 = v1"
    using inv [OF v] unfolding n1_def n2_def by (rule conjunct2)
  have c: "chr (v0 + 65) = c0" "chr (v1 + 65) = c1" by (simp_all add: v0_def v1_def chr_ord)
  have "hill_blocks m' (chr (n1 + 65) # chr (n2 + 65) # r') = Inr (c0 # c1 # t)"
    by (simp add: Let_def ih o1 o2 undo1 undo2 c)
  then show ?case unfolding r .
qed

lemma adjugate_inverse_26:
  fixes a b c d x v0 v1 :: int
  assumes x: "((a * d - b * c) * x) mod 26 = 1" and v: "0 \<le> v0" "v0 < 26" "0 \<le> v1" "v1 < 26"
  shows "(((d * x) mod 26) * ((a * v0 + b * v1) mod 26)
           + ((- b * x) mod 26) * ((c * v0 + d * v1) mod 26)) mod 26 = v0"
    and "(((- c * x) mod 26) * ((a * v0 + b * v1) mod 26)
           + ((a * x) mod 26) * ((c * v0 + d * v1) mod 26)) mod 26 = v1"
proof -
  have "(((d * x) mod 26) * ((a * v0 + b * v1) mod 26)
           + ((- b * x) mod 26) * ((c * v0 + d * v1) mod 26)) mod 26
        = ((d * x) * (a * v0 + b * v1) + (- b * x) * (c * v0 + d * v1)) mod 26"
    by (intro mod_add_cong mod_mult_cong) simp_all
  also have "(d * x) * (a * v0 + b * v1) + (- b * x) * (c * v0 + d * v1)
               = v0 * ((a * d - b * c) * x)"
    by (simp add: algebra_simps)
  also have "(v0 * ((a * d - b * c) * x)) mod 26 = (v0 * (((a * d - b * c) * x) mod 26)) mod 26"
    by (simp add: mod_simps)
  also have "\<dots> = v0" using x v by simp
  finally show "(((d * x) mod 26) * ((a * v0 + b * v1) mod 26)
           + ((- b * x) mod 26) * ((c * v0 + d * v1) mod 26)) mod 26 = v0" .
  have "(((- c * x) mod 26) * ((a * v0 + b * v1) mod 26)
           + ((a * x) mod 26) * ((c * v0 + d * v1) mod 26)) mod 26
        = ((- c * x) * (a * v0 + b * v1) + (a * x) * (c * v0 + d * v1)) mod 26"
    by (intro mod_add_cong mod_mult_cong) simp_all
  also have "(- c * x) * (a * v0 + b * v1) + (a * x) * (c * v0 + d * v1)
               = v1 * ((a * d - b * c) * x)"
    by (simp add: algebra_simps)
  also have "(v1 * ((a * d - b * c) * x)) mod 26 = (v1 * (((a * d - b * c) * x) mod 26)) mod 26"
    by (simp add: mod_simps)
  also have "\<dots> = v1" using x v by simp
  finally show "(((- c * x) mod 26) * ((a * v0 + b * v1) mod 26)
           + ((a * x) mod 26) * ((c * v0 + d * v1) mod 26)) mod 26 = v1" .
qed

lemma gcd_mod_26: "gcd (a mod 26) (26::int) = gcd a 26"
  by (metis gcd.commute gcd_red_int)

lemma hill_decrypt_invertible:
  assumes "mod_inv ((a * d - b * c) mod 26) 26 = Inr (Some x)"
  shows "hill_decrypt r ((a, b), (c, d))
           = (case hill_blocks (((d * x) mod 26, (- b * x) mod 26), ((- c * x) mod 26, (a * x) mod 26))
                     (filter isalpha (str_upper r)) of
                Inl e \<Rightarrow> Inl e | Inr res \<Rightarrow> Inr ([], res))"
  unfolding hill_decrypt_def Let_def fst_conv snd_conv assms by simp

lemma hill_round_trip:
  assumes det: "gcd (a * d - b * c) 26 = 1"
    and ascii: "\<forall>c \<in> set s. is_ascii c"
  shows "\<exists>ct. hill_encrypt s ((a, b), (c, d)) = Inr ct
           \<and> hill_decrypt ct ((a, b), (c, d))
               = Inr ([], (let t = filter isalpha (str_upper s)
                           in if odd (length t) then t @ ''X'' else t))"
proof -
  define K where "K = ((a, b), (c, d))"
  define t where "t = filter isalpha (str_upper s)"
  define n where "n = (if odd (length t) then t @ ''X'' else t)"
  have t_letters: "\<forall>c \<in> set t. in_A_Z c"
    using ascii by (auto simp: t_def str_upper_def ascii_alpha_upper)
  have "in_A_Z CHR ''X''" by (simp add: in_A_Z_iff ord_def)
  then have n_letters: "\<forall>c \<in> set n. in_A_Z c" using t_letters by (auto simp: n_def)
  have n_even: "even (length n)" by (simp add: n_def)
  have enc: "hill_encrypt s K = hill_blocks K n"
    unfolding hill_encrypt_def Let_def t_def [symmetric] n_def
    by (simp add: odd_iff_mod_2_eq_one)
  obtain r where r: "hill_blocks K n = Inr r" "length r = length n" "\<forall>c \<in> set r. in_A_Z c"
    using hill_blocks_even [OF n_even] by blast
  have "gcd ((a * d - b * c) mod 26) 26 = 1"
    using det by (simp only: gcd_mod_26)
  then obtain x where x: "mod_inv ((a * d - b * c) mod 26) 26 = Inr (Some x)"
      "(((a * d - b * c) mod 26) * x) mod 26 = 1"
    using coprime_26_inverse [of "(a * d - b * c) mod 26"] by auto
  have x1: "((a * d - b * c) * x) mod 26 = 1" using x(2) by (simp only: mod_mult_left_eq)
  define K' where "K' = (((d * x) mod 26, (- b * x) mod 26), ((- c * x) mod 26, (a * x) mod 26))"
  have dec: "hill_decrypt r K = (case hill_blocks K' r of Inl e \<Rightarrow> Inl e | Inr res \<Rightarrow> Inr ([], res))"
    unfolding K_def K'_def hill_decrypt_invertible [OF x(1)] filter_upper_letters [OF r(3)] ..
  have "hill_blocks K' r = Inr n"
  proof (rule hill_blocks_inverse [OF _ n_even n_letters r(1)])
    fix v0 v1 :: int
    assume v: "0 \<le> v0" "v0 < 26" "0 \<le> v1" "v1 < 26"
    show "(fst (fst K') * ((fst (fst K) * v0 + snd (fst K) * v1) mod 26)
        + snd (fst K') * ((fst (snd K) * v0 + snd (snd K) * v1) mod 26)) mod 26 = v0
    \<and> (fst (snd K') * ((fst (fst K) * v0 + snd (fst K) * v1) mod 26)
        + snd (snd K') * ((fst (snd K) * v0 + snd (snd K) * v1) mod 26)) mod 26 = v1"
      unfolding K_def K'_def fst_conv snd_conv
      using adjugate_inverse_26 [OF x1 v] by (rule conjI)
  qed
  then have "hill_decrypt r K = Inr ([], n)" by (simp add: dec)
  then show ?thesis using enc r(1) unfolding K_def n_def t_def Let_def by simp
qed

section \<open>Worked scenarios\<close>

text \<open>
  Claim C7. The Columnar scenario: \<open>HELLOWORLD\<close> is padded to \<open>HELLOWORLDXX\<close>, the grid has
  the rows \<open>HEL\<close>, \<open>LOW\<close>, \<open>ORL\<close>, \<open>DXX\<close>, the key \<open>KEY\<close> orders the columns as 1, 0, 2,
  the ciphertext is \<open>EORXHLODLWLX\<close>, and decoding it gives \<open>HELLOWORLD\<close> back.
\<close>

theorem columnar_scenario:
  "ljust ''HELLOWORLD'' 12 CHR ''X'' = ''HELLOWORLDXX''
   \<and> build_matrix ''HELLOWORLDXX'' 3 4 0 = [''HEL'', ''LOW'', ''ORL'', ''DXX'']
   \<and> map fst (key_order ''KEY'') = [1, 0, 2]
   \<and> columnar_transposition_encrypt ''HELLOWORLD'' ''KEY'' = Inr ''EORXHLODLWLX''
   \<and> columnar_transposition_decrypt ''EORXHLODLWLX'' ''KEY'' = Inr ''HELLOWORLD''"
  by code_simp

text \<open>
  The Playfair scenario as the specification gives it does not hold: with the key
  \<open>MONARCHY\<close> the digraph \<open>he\<close> is a rectangle (h in row 1, column 1; e in row 2,
  column 0) and becomes \<open>cf\<close>, so the ciphertext is not \<open>ELSUPM\<close>; and \<open>ELSUPM\<close> does not
  decode to \<open>HELXLO\<close>.
\<close>

theorem playfair_scenario_counterexample:
  "playfair_encrypt ''HELLO'' ''MONARCHY'' \<noteq> Inr ''ELSUPM''
   \<and> playfair_decrypt ''ELSUPM'' ''MONARCHY'' \<noteq> Inr ''HELXLO''"
  by code_simp

text \<open>
  Claim C8, with the ciphertext the code computes. With the key \<open>MONARCHY\<close> the plaintext
  \<open>HELLO\<close> is split into the digraphs \<open>he\<close>, \<open>lx\<close>, \<open>lo\<close>; its ciphertext is \<open>CFSUPM\<close>, and
  decoding \<open>CFSUPM\<close> gives \<open>HELXLO\<close>: the inserted \<open>x\<close> stays.
\<close>

theorem playfair_scenario:
  "generate_key_table ''MONARCHY'' = [''monar'', ''chybd'', ''efgik'', ''lpqst'', ''uvwxz'']
   \<and> make_digraphs (filter isalpha (replace_j (str_lower ''HELLO''))) = [''he'', ''lx'', ''lo'']
   \<and> playfair_encrypt ''HELLO'' ''MONARCHY'' = Inr ''CFSUPM''
   \<and> playfair_decrypt ''CFSUPM'' ''MONARCHY'' = Inr ''HELXLO''"
  by code_simp

text \<open>
  Claim C3 fails on the code. The first Columnar pass of \<open>HELLOWORLD\<close> with \<open>KEY\<close> is
  \<open>EORXHLODLWLX\<close>, which ends in the filler; the second pass with \<open>AB\<close> gives
  \<open>ERHOLLOXLDWX\<close>. Decoding with \<open>AB\<close> strips that final \<open>X\<close>, the eleven characters left
  no longer fill a grid of three columns, and decoding with \<open>KEY\<close> returns \<open>XEOHODLRL\<close>,
  not the plaintext.
\<close>

theorem double_transposition_round_trip_fails:
  "double_transposition_encrypt ''HELLOWORLD'' ''KEY'' ''AB'' = Inr ''ERHOLLOXLDWX''
   \<and> columnar_transposition_decrypt ''ERHOLLOXLDWX'' ''AB'' = Inr ''EORXHLODLWL''
   \<and> double_transposition_decrypt ''ERHOLLOXLDWX'' ''KEY'' ''AB'' = Inr ''XEOHODLRL''"
  by code_simp

section \<open>Round trips of the substitution ciphers\<close>

text \<open>
  Claim C5. For every ASCII text, decoding the encoding gives the upper-cased text, in
  which a character that is not a letter is the character of the input: for the additive
  cipher with any key, for the multiplicative cipher with a key coprime to 26, and for the
  affine cipher with \<open>a\<close> coprime to 26; none of these prints. For the Hill cipher with a
  determinant coprime to 26 it gives the upper-cased letters of the text, followed by one
  \<open>X\<close> exactly when their number is odd.
\<close>

theorem substitution_round_trip:
  assumes ascii: "\<forall>c \<in> set s. is_ascii c"
  shows "additive_decrypt (additive_encrypt s key) key = str_upper s
    \<and> (gcd key 26 = 1 \<longrightarrow>
          fst (multiplicative_encrypt s key) = []
        \<and> multiplicative_decrypt (snd (multiplicative_encrypt s key)) key = Inr ([], str_upper s))
    \<and> (gcd a 26 = 1 \<longrightarrow>
          fst (affine_encrypt s a b) = []
        \<and> affine_decrypt (snd (affine_encrypt s a b)) a b = Inr ([], str_upper s))
    \<and> (gcd (m00 * m11 - m01 * m10) 26 = 1 \<longrightarrow>
          (\<exists>ct. hill_encrypt s ((m00, m01), (m10, m11)) = Inr ct
              \<and> hill_decrypt ct ((m00, m01), (m10, m11))
                  = Inr ([], (let t = filter isalpha (str_upper s)
                              in if odd (length t) then t @ ''X'' else t))))
    \<and> (\<forall>i < length s. \<not> isalpha (s ! i) \<longrightarrow> str_upper s ! i = s ! i)"
proof (intro conjI impI allI)
  show "additive_decrypt (additive_encrypt s key) key = str_upper s"
    by (rule additive_round_trip)
next
  assume "gcd key 26 = 1"
  then show "fst (multiplicative_encrypt s key) = []"
    by (simp add: multiplicative_encrypt_def Let_def)
next
  assume "gcd key 26 = 1"
  then show "multiplicative_decrypt (snd (multiplicative_encrypt s key)) key
               = Inr ([], str_upper s)"
    by (rule multiplicative_round_trip)
next
  assume "gcd a 26 = 1"
  then show "fst (affine_encrypt s a b) = []"
    by (simp add: affine_encrypt_def Let_def)
next
  assume "gcd a 26 = 1"
  then show "affine_decrypt (snd (affine_encrypt s a b)) a b = Inr ([], str_upper s)"
    by (rule affine_round_trip)
next
  assume "gcd (m00 * m11 - m01 * m10) 26 = 1"
  then show "\<exists>ct. hill_encrypt s ((m00, m01), (m10, m11)) = Inr ct
              \<and> hill_decrypt ct ((m00, m01), (m10, m11))
                  = Inr ([], (let t = filter isalpha (str_upper s)
                              in if odd (length t) then t @ ''X'' else t))"
    using ascii by (rule hill_round_trip)
next
  fix i
  assume i: "i < length s" "\<not> isalpha (s ! i)"
  then have "char_upper (s ! i) = s ! i"
    by (auto simp: char_upper_def isalpha_def Let_def)
  then show "str_upper s ! i = s ! i" using i(1) by (simp add: str_upper_def)
qed

theorem substitution_round_trip_witness:
  "list_all is_ascii ''Hello, World''
   \<and> gcd (7::int) 26 = 1 \<and> gcd (5::int) 26 = 1 \<and> gcd ((3::int) * 5 - 3 * 2) 26 = 1
   \<and> additive_decrypt (additive_encrypt ''Hello, World'' 3) 3 = ''HELLO, WORLD''
   \<and> multiplicative_decrypt (snd (multiplicative_encrypt ''Hello, World'' 7)) 7
        = Inr ([], ''HELLO, WORLD'')
   \<and> affine_decrypt (snd (affine_encrypt ''Hello, World'' 5 8)) 5 8 = Inr ([], ''HELLO, WORLD'')
   \<and> hill_encrypt ''Hello'' ((3, 3), (2, 5)) = Inr ''HIOZHN''
   \<and> hill_decrypt ''HIOZHN'' ((3, 3), (2, 5)) = Inr ([], ''HELLOX'')"
proof -
  have a1: "\<forall>c \<in> set ''Hello, World'' . is_ascii c" by code_simp
  have a2: "\<forall>c \<in> set ''Hello'' . is_ascii c" by code_simp
  have g7: "gcd (7::int) 26 = 1" by code_simp
  have g5: "gcd (5::int) 26 = 1" by code_simp
  have gd: "gcd ((3::int) * 5 - 3 * 2) 26 = 1" by code_simp
  have u: "str_upper ''Hello, World'' = ''HELLO, WORLD''" by code_simp
  have h: "hill_encrypt ''Hello'' ((3, 3), (2, 5)) = Inr ''HIOZHN''" by code_simp
  have n: "(let t = filter isalpha (str_upper ''Hello'')
            in if odd (length t) then t @ ''X'' else t) = ''HELLOX''" by code_simp
  from substitution_round_trip [OF a1, where key = 3] u
  have r1: "additive_decrypt (additive_encrypt ''Hello, World'' 3) 3 = ''HELLO, WORLD''"
    by simp
  from substitution_round_trip [OF a1, where key = 7] g7 u
  have r2: "multiplicative_decrypt (snd (multiplicative_encrypt ''Hello, World'' 7)) 7
              = Inr ([], ''HELLO, WORLD'')" by simp
  from substitution_round_trip [OF a1, where a = 5 and b = 8] g5 u
  have r3: "affine_decrypt (snd (affine_encrypt ''Hello, World'' 5 8)) 5 8
              = Inr ([], ''HELLO, WORLD'')" by simp
  from substitution_round_trip [OF a2, where ?m00.0 = 3 and ?m01.0 = 3 and ?m10.0 = 2 and ?m11.0 = 5] gd h n
  have r4: "hill_decrypt ''HIOZHN'' ((3, 3), (2, 5)) = Inr ([], ''HELLOX'')" by simp
  have l: "list_all is_ascii ''Hello, World''" using a1 by (simp only: list_all_iff)
  from l g7 g5 gd r1 r2 r3 h r4 show ?thesis by blast
qed

section \<open>How failures are signalled\<close>

text \<open>
  The claim that failures are typed errors does not hold: with the key 13 the
  multiplicative encoder prints a line and returns the empty string, the value it also
  returns for the empty text with the valid key 3; \<open>hill_decrypt\<close> does the same for the
  singular matrix; and the Columnar decoder accepts five characters under a key of two.
\<close>

theorem error_signalling_counterexample:
  "multiplicative_encrypt ''HELLO'' 13 = ([''Error: The key must be coprime with 26.''], '''')
   \<and> snd (multiplicative_encrypt ''HELLO'' 13) = snd (multiplicative_encrypt '''' 3)
   \<and> hill_decrypt ''HIAT'' ((2, 4), (1, 2))
       = Inr ([''Error: Key matrix is not invertible modulo 26!''], '''')
   \<and> columnar_transposition_decrypt ''ABCDE'' ''KE'' = Inr ''CADB''"
  by code_simp

text \<open>
  Claim C9, as the code has it. With a key that is not coprime to 26 the multiplicative and
  the affine cipher print one diagnostic line and return the empty string, in both
  directions; \<open>hill_decrypt\<close> does the same when the determinant is not coprime to 26;
  \<open>columnar_transposition_decrypt\<close> with a non-empty key returns a string for a ciphertext
  of any length. No function returns a typed error.
\<close>

theorem error_signalling:
  "(gcd key 26 \<noteq> 1 \<longrightarrow>
      multiplicative_encrypt s key = ([''Error: The key must be coprime with 26.''], '''')
    \<and> multiplicative_decrypt s key = Inr ([''Error: The key must be coprime with 26.''], '''')
    \<and> affine_encrypt s key b = ([''Error: Key 'a' must be coprime with 26.''], '''')
    \<and> affine_decrypt s key b = Inr ([''Error: Key 'a' must be coprime with 26.''], ''''))
   \<and> (gcd (m00 * m11 - m01 * m10) 26 \<noteq> 1 \<longrightarrow>
        hill_decrypt s ((m00, m01), (m10, m11))
          = Inr ([''Error: Key matrix is not invertible modulo 26!''], ''''))
   \<and> (k \<noteq> [] \<longrightarrow> (\<exists>p. columnar_transposition_decrypt s k = Inr p))"
proof (intro conjI impI)
  assume g: "gcd key 26 \<noteq> 1"
  show "multiplicative_encrypt s key = ([''Error: The key must be coprime with 26.''], '''')"
    using g by (simp add: multiplicative_encrypt_def)
  show "multiplicative_decrypt s key = Inr ([''Error: The key must be coprime with 26.''], '''')"
    using g by (simp add: multiplicative_decrypt_def)
  show "affine_encrypt s key b = ([''Error: Key 'a' must be coprime with 26.''], '''')"
    using g by (simp add: affine_encrypt_def)
  show "affine_decrypt s key b = Inr ([''Error: Key 'a' must be coprime with 26.''], '''')"
    using g by (simp add: affine_decrypt_def)
next
  assume "gcd (m00 * m11 - m01 * m10) 26 \<noteq> 1"
  then have "gcd ((m00 * m11 - m01 * m10) mod 26) 26 \<noteq> 1" by (simp add: gcd_mod_26)
  then have "mod_inv ((m00 * m11 - m01 * m10) mod 26) 26 = Inr None"
    using mod_inv_None_iff [of 26 "(m00 * m11 - m01 * m10) mod 26"] by simp
  then show "hill_decrypt s ((m00, m01), (m10, m11))
               = Inr ([''Error: Key matrix is not invertible modulo 26!''], '''')"
    unfolding hill_decrypt_def Let_def fst_conv snd_conv by simp
next
  assume "k \<noteq> []"
  then show "\<exists>p. columnar_transposition_decrypt s k = Inr p"
    by (simp add: columnar_transposition_decrypt_def Let_def split: prod.split)
qed

theorem error_signalling_witness:
  "gcd (13::int) 26 \<noteq> 1
   \<and> multiplicative_encrypt ''HELLO'' 13 = ([''Error: The key must be coprime with 26.''], '''')
   \<and> affine_decrypt ''HELLO'' 13 4 = Inr ([''Error: Key 'a' must be coprime with 26.''], '''')
   \<and> gcd ((2::int) * 2 - 4 * 1) 26 \<noteq> 1
   \<and> hill_decrypt ''HIAT'' ((2, 4), (1, 2))
        = Inr ([''Error: Key matrix is not invertible modulo 26!''], '''')
   \<and> ''KE'' \<noteq> [] \<and> (\<exists>p. columnar_transposition_decrypt ''ABCDE'' ''KE'' = Inr p)"
proof -
  have g: "gcd (13::int) 26 \<noteq> 1" by code_simp
  have d: "gcd ((2::int) * 2 - 4 * 1) 26 \<noteq> 1" by code_simp
  have k: "''KE'' \<noteq> []" by simp
  note t = error_signalling [where key = 13 and s = "''HELLO''" and b = 4]
  note h = error_signalling [where ?m00.0 = 2 and ?m01.0 = 4 and ?m10.0 = 1 and ?m11.0 = 2
                               and s = "''HIAT''"]
  note c = error_signalling [where k = "''KE''" and s = "''ABCDE''"]
  from g t have "multiplicative_encrypt ''HELLO'' 13
                   = ([''Error: The key must be coprime with 26.''], '''')"
    and "affine_decrypt ''HELLO'' 13 4 = Inr ([''Error: Key 'a' must be coprime with 26.''], '''')"
    by blast+
  moreover from d h have "hill_decrypt ''HIAT'' ((2, 4), (1, 2))
        = Inr ([''Error: Key matrix is not invertible modulo 26!''], '''')" by blast
  moreover from k c have "\<exists>p. columnar_transposition_decrypt ''ABCDE'' ''KE'' = Inr p" by blast
  ultimately show ?thesis using g d k by blast
qed

section \<open>Exact round trips: Disruptive and Rail fence\<close>

lemma fold_update_length:
  "length (fold (\<lambda>(p, v) xs. xs[p := v]) ws xs) = length xs"
  by (induction ws arbitrary: xs) auto

lemma fold_inverse_length:
  "length (fold (\<lambda>(i, p) xs. xs[p := i]) ws xs) = length xs"
  by (induction ws arbitrary: xs) auto

lemma fold_update_other:
  "p \<notin> fst ` set ws \<Longrightarrow> fold (\<lambda>(p, v) xs. xs[p := v]) ws xs ! p = xs ! p"
  by (induction ws arbitrary: xs) auto

lemma fold_update_nth:
  "distinct (map fst ws) \<Longrightarrow> (p, v) \<in> set ws \<Longrightarrow> p < length xs
     \<Longrightarrow> fold (\<lambda>(p, v) xs. xs[p := v]) ws xs ! p = v"
proof (induction ws arbitrary: xs)
  case Nil
  then show ?case by simp
next
  case (Cons w ws)
  show ?case
  proof (cases "w = (p, v)")
    case True
    then have "p \<notin> fst ` set ws" using Cons.prems(1) by auto
    then show ?thesis using True Cons.prems(3) by (simp add: fold_update_other)
  next
    case False
    then have "(p, v) \<in> set ws" using Cons.prems(2) by simp
    then show ?thesis using Cons.IH [of "xs[fst w := snd w]"] Cons.prems
      by (simp add: case_prod_unfold)
  qed
qed

text \<open>Writing the values \<open>vs\<close> to the places \<open>ps\<close>, as the loops over \<^verbatim>\<open>enumerate\<close> do.\<close>

lemma fold_enumerate_update:
  "length ps = length vs \<Longrightarrow>
   fold (\<lambda>(i, v) xs. xs[ps ! i := f v]) (enumerate 0 vs) xs
     = fold (\<lambda>(p, v) xs. xs[p := v]) (zip ps (map f vs)) xs"
proof -
  assume len: "length ps = length vs"
  have "zip ps (map f vs) = map (\<lambda>(i, v). (ps ! i, f v)) (enumerate 0 vs)"
    using len by (intro nth_equalityI) (simp_all add: nth_enumerate_eq)
  then show ?thesis by (simp add: fold_map comp_def case_prod_unfold)
qed

lemma scatter_nth:
  assumes "length ps = length vs" "distinct ps" "i < length vs" "ps ! i < length xs"
  shows "fold (\<lambda>(i, v) xs. xs[ps ! i := f v]) (enumerate 0 vs) xs ! (ps ! i) = f (vs ! i)"
proof -
  have "(ps ! i, f (vs ! i)) \<in> set (zip ps (map f vs))"
    using assms(1,3) by (auto simp: set_zip intro!: exI [of _ i])
  moreover have "distinct (map fst (zip ps (map f vs)))" using assms(1,2) by simp
  ultimately show ?thesis
    using assms(4) by (simp add: fold_enumerate_update [OF assms(1)] fold_update_nth)
qed

lemma scatter_length:
  "length (fold (\<lambda>(i, v) xs. xs[ps ! i := f v]) (enumerate 0 vs) xs) = length xs"
  by (induction vs arbitrary: xs rule: rev_induct) (auto simp: enumerate_append_eq)

lemma concat_singletons:
  assumes "\<And>j. j < length cs \<Longrightarrow> cs ! j = [g j]"
  shows "concat cs = map g [0..<length cs]"
proof -
  have "cs = map (\<lambda>j. [g j]) [0..<length cs]"
    using assms by (intro nth_equalityI) simp_all
  then have "concat cs = concat (map (\<lambda>j. [g j]) [0..<length cs])" by simp
  also have "\<dots> = map g [0..<length cs]" by (induction "[0..<length cs]") auto
  finally show ?thesis .
qed

lemma shuffled_indices:
  assumes "mset perm = mset [0..<n]"
  shows "length perm = n" and "distinct perm" and "\<And>i. i < n \<Longrightarrow> perm ! i < n"
    and "\<And>j. j < n \<Longrightarrow> \<exists>i<n. perm ! i = j"
proof -
  show len: "length perm = n" using mset_eq_length [OF assms] by simp
  show "distinct perm" using mset_eq_imp_distinct_iff [OF assms] by simp
  have setp: "set perm = {0..<n}" using mset_eq_setD [OF assms] by simp
  show "perm ! i < n" if "i < n" for i
    using that len setp nth_mem [of i perm] by auto
  show "\<exists>i<n. perm ! i = j" if "j < n" for j
  proof -
    from that setp have "j \<in> set perm" by simp
    then show ?thesis using len by (auto simp: in_set_conv_nth)
  qed
qed

lemma disruptive_encrypt_nth:
  assumes "mset (shuffle (key_seed key) [0..<length s]) = mset [0..<length s]"
  shows "length (disruptive_transposition_encrypt shuffle s key) = length s"
    and "\<And>i. i < length s \<Longrightarrow>
           disruptive_transposition_encrypt shuffle s key
             ! (shuffle (key_seed key) [0..<length s] ! i) = s ! i"
proof -
  define n where "n = length s"
  define perm where "perm = shuffle (key_seed key) [0..<n]"
  have m: "mset perm = mset [0..<n]" unfolding perm_def n_def by (rule assms)
  note p = shuffled_indices [OF m]
  define cs where "cs = fold (\<lambda>(i, char) cs. cs[perm ! i := [char]]) (enumerate 0 s)
                          (replicate n '''')"
  have cs_len: "length cs = n" by (simp add: cs_def scatter_length)
  have cs_nth: "cs ! (perm ! i) = [s ! i]" if "i < n" for i
    unfolding cs_def using that p(1,2) p(3) [OF that]
    by (intro scatter_nth) (simp_all add: n_def)
  define ct where "ct = concat cs"
  have enc: "disruptive_transposition_encrypt shuffle s key = ct"
    by (simp add: disruptive_transposition_encrypt_def Let_def ct_def cs_def perm_def n_def)
  have cs_single: "cs ! j = [hd (cs ! j)]" if "j < length cs" for j
  proof -
    from that cs_len p(4) obtain i where "i < n" "perm ! i = j" by auto
    then show ?thesis using cs_nth [of i] by simp
  qed
  have ct_eq: "ct = map (\<lambda>j. hd (cs ! j)) [0..<n]"
    unfolding ct_def using concat_singletons [of cs "\<lambda>j. hd (cs ! j)"] cs_single cs_len
    by simp
  show "length (disruptive_transposition_encrypt shuffle s key) = length s"
    by (simp add: enc ct_eq n_def)
  show "disruptive_transposition_encrypt shuffle s key
          ! (shuffle (key_seed key) [0..<length s] ! i) = s ! i" if "i < length s" for i
  proof -
    have i: "i < n" using that by (simp add: n_def)
    show ?thesis
      using p(3) [OF i] cs_nth [OF i] by (simp add: enc ct_eq perm_def n_def)
  qed
qed

lemma disruptive_round_trip:
  assumes shuffle: "\<forall>seed xs. mset (shuffle seed xs) = mset xs"
  shows "disruptive_transposition_decrypt shuffle
           (disruptive_transposition_encrypt shuffle s key) key = s"
proof -
  define n where "n = length s"
  define perm where "perm = shuffle (key_seed key) [0..<n]"
  have m: "mset perm = mset [0..<n]" unfolding perm_def using shuffle by simp
  note p = shuffled_indices [OF m]
  define ct where "ct = disruptive_transposition_encrypt shuffle s key"
  have ct_len: "length ct = n"
    unfolding ct_def n_def using disruptive_encrypt_nth(1) [of shuffle key s] shuffle by simp
  have ct_nth: "ct ! (perm ! i) = s ! i" if "i < n" for i
    unfolding ct_def perm_def n_def
    using disruptive_encrypt_nth(2) [of shuffle key s i] shuffle that by (simp add: n_def)
  define inv_perm where "inv_perm = fold (\<lambda>(i, p) inv_perm. inv_perm[p := i]) (enumerate 0 perm)
                                      (replicate n 0)"
  have inv_len: "length inv_perm = n"
    by (simp add: inv_perm_def fold_inverse_length)
  have inv_nth: "inv_perm ! (perm ! i) = i" if "i < n" for i
  proof -
    have "inv_perm = fold (\<lambda>(p, v) xs. xs[p := v]) (map (\<lambda>(i, p). (p, i)) (enumerate 0 perm))
                        (replicate n 0)"
      by (simp add: inv_perm_def fold_map comp_def case_prod_unfold)
    moreover have "(perm ! i, i) \<in> set (map (\<lambda>(i, p). (p, i)) (enumerate 0 perm))"
      using that p(1) by (auto simp: in_set_enumerate_eq image_iff intro!: bexI [of _ "(i, perm ! i)"])
    moreover have "map fst (map (\<lambda>(i, p). (p, i)) (enumerate 0 perm)) = perm"
      by (simp add: comp_def case_prod_unfold map_snd_enumerate)
    ultimately show ?thesis using p(2) p(3) [OF that]
      by (simp add: fold_update_nth)
  qed
  have inv_dist: "distinct inv_perm"
    unfolding distinct_conv_nth
  proof (intro allI impI)
    fix j j' assume "j < length inv_perm" "j' < length inv_perm" "j \<noteq> j'"
    then obtain i i' where "i < n" "perm ! i = j" "i' < n" "perm ! i' = j'"
      using p(4) inv_len by metis
    then show "inv_perm ! j \<noteq> inv_perm ! j'"
      using inv_nth [of i] inv_nth [of i'] \<open>j \<noteq> j'\<close> by auto
  qed
  define ps where "ps = fold (\<lambda>(i, char) plaintext_chars. plaintext_chars[inv_perm ! i := [char]])
                          (enumerate 0 ct) (replicate n '''')"
  have ps_len: "length ps = n" by (simp add: ps_def scatter_length)
  have ps_nth: "ps ! i = [s ! i]" if "i < n" for i
  proof -
    have "ps ! (inv_perm ! (perm ! i)) = [ct ! (perm ! i)]"
      unfolding ps_def using inv_len ct_len inv_dist p(3) [OF that] that
      by (intro scatter_nth) (simp_all add: inv_nth)
    then show ?thesis using that by (simp add: inv_nth ct_nth)
  qed
  have "concat ps = map (\<lambda>i. s ! i) [0..<n]"
    using concat_singletons [of ps "\<lambda>i. s ! i"] ps_nth ps_len by simp
  also have "\<dots> = s" by (simp add: n_def map_nth)
  finally have "concat ps = s" .
  moreover have "disruptive_transposition_decrypt shuffle ct key = concat ps"
    by (simp add: disruptive_transposition_decrypt_def Let_def ps_def inv_perm_def perm_def ct_len)
  ultimately show ?thesis by (simp add: ct_def)
qed

lemma rail_part_simps [simp]:
  "rail_part [] xs r = []"
  "rail_part p [] r = []"
  "rail_part (q # p) (x # xs) r = (if q = r then x # rail_part p xs r else rail_part p xs r)"
  by (simp_all add: rail_part_def)

lemma zigzag_ok_step:
  assumes "2 \<le> n" "zigzag_ok n rail direction"
  shows "zigzag_ok n (rail + direction)
           (if rail + direction = 0 \<or> rail + direction = n - 1 then direction * (- 1)
            else direction)"
  using assms unfolding zigzag_ok_def by auto

lemma zigzag_length [simp]: "length (zigzag k n rail direction) = k"
  by (induction k arbitrary: rail direction) (simp_all add: Let_def)

lemma zigzag_range:
  assumes "2 \<le> n"
  shows "zigzag_ok n rail direction \<Longrightarrow> r \<in> set (zigzag k n rail direction) \<Longrightarrow> 0 \<le> r \<and> r < n"
proof (induction k arbitrary: rail direction)
  case 0
  then show ?case by simp
next
  case (Suc k)
  from Suc.prems(2) consider "r = rail"
    | "r \<in> set (zigzag k n (rail + direction)
          (if rail + direction = 0 \<or> rail + direction = n - 1 then direction * (- 1)
           else direction))"
    by (auto simp: Let_def)
  then show ?case
  proof cases
    case 1
    then show ?thesis using Suc.prems(1) by (simp add: zigzag_ok_def)
  next
    case 2
    then show ?thesis using Suc.IH [OF zigzag_ok_step [OF assms Suc.prems(1)]] by simp
  qed
qed

lemma rail_fence_write_parts:
  "\<forall>r \<in> set (zigzag (length t) n rail direction). 0 \<le> r \<and> nat r < length rails \<Longrightarrow>
   rail_fence_write t n rail direction rails
     = map (\<lambda>j. rails ! j @ rail_part (zigzag (length t) n rail direction) t (int j))
         [0..<length rails]"
proof (induction t arbitrary: rail direction rails)
  case Nil
  then show ?case by (simp add: map_nth)
next
  case (Cons c t)
  define rail' where "rail' = rail + direction"
  define direction' where
    "direction' = (if rail' = 0 \<or> rail' = n - 1 then direction * (- 1) else direction)"
  define rails' where "rails' = rails[nat rail := rails ! nat rail @ [c]]"
  have zz: "zigzag (length (c # t)) n rail direction = rail # zigzag (length t) n rail' direction'"
    by (simp add: Let_def rail'_def direction'_def)
  have rail: "0 \<le> rail" "nat rail < length rails" using Cons.prems unfolding zz by simp_all
  have "\<forall>r \<in> set (zigzag (length t) n rail' direction'). 0 \<le> r \<and> nat r < length rails'"
    using Cons.prems unfolding zz by (simp add: rails'_def)
  from Cons.IH [OF this]
  have "rail_fence_write (c # t) n rail direction rails
          = map (\<lambda>j. rails' ! j @ rail_part (zigzag (length t) n rail' direction') t (int j))
              [0..<length rails]"
    by (simp add: Let_def rail'_def direction'_def rails'_def)
  also have "\<dots> = map (\<lambda>j. rails ! j @ rail_part (rail # zigzag (length t) n rail' direction')
                                 (c # t) (int j)) [0..<length rails]"
  proof (rule map_cong [OF refl])
    fix j assume "j \<in> set [0..<length rails]"
    then have j: "j < length rails" by simp
    show "rails' ! j @ rail_part (zigzag (length t) n rail' direction') t (int j)
            = rails ! j @ rail_part (rail # zigzag (length t) n rail' direction') (c # t) (int j)"
    proof (cases "rail = int j")
      case True
      then have "nat rail = j" by simp
      then show ?thesis using True j by (simp add: rails'_def)
    next
      case False
      then have "nat rail \<noteq> j" using rail(1) by auto
      then show ?thesis using False by (simp add: rails'_def)
    qed
  qed
  finally show ?case unfolding zz .
qed

lemma rail_part_length:
  "length p = length xs \<Longrightarrow> length (rail_part p xs r) = length (filter (\<lambda>q. q = r) p)"
proof (induction p arbitrary: xs)
  case Nil
  then show ?case by simp
next
  case (Cons q p)
  then obtain x xs' where "xs = x # xs'" by (cases xs) auto
  then show ?case using Cons by simp
qed

lemma count_positions:
  "length (filter (\<lambda>i. p ! i = r) [0..<length p]) = length (filter (\<lambda>q. q = r) p)"
proof -
  have "filter (\<lambda>q. q = r) (map ((!) p) [0..<length p])
          = map ((!) p) (filter (\<lambda>i. p ! i = r) [0..<length p])"
    by (simp add: filter_map comp_def)
  then have "length (filter (\<lambda>q. q = r) (map ((!) p) [0..<length p]))
          = length (filter (\<lambda>i. p ! i = r) [0..<length p])" by simp
  then show ?thesis by (simp add: map_nth)
qed

lemma sum_list_delta:
  "k < n \<Longrightarrow> sum_list (map (\<lambda>j. if j = k then 1 else 0) [0..<n]) = (1::nat)"
  by (simp add: interv_sum_list_conv_sum_set_nat)

lemma rail_parts_length:
  "length p = length xs \<Longrightarrow> \<forall>q \<in> set p. 0 \<le> q \<and> q < int n \<Longrightarrow>
   length (concat (map (\<lambda>j. rail_part p xs (int j)) [0..<n])) = length xs"
proof (induction p arbitrary: xs)
  case Nil
  then show ?case by (simp add: length_concat comp_def)
next
  case (Cons q p)
  then obtain x xs' where xs: "xs = x # xs'" by (cases xs) auto
  have q: "nat q < n" "int (nat q) = q" using Cons.prems(2) by auto
  have ih: "sum_list (map (\<lambda>j. length (rail_part p xs' (int j))) [0..<n]) = length xs'"
    using Cons.IH [of xs'] Cons.prems xs by (simp add: length_concat comp_def)
  have "length (rail_part (q # p) xs (int j))
          = (if j = nat q then 1 else 0) + length (rail_part p xs' (int j))" for j
    using q(2) by (auto simp: xs)
  then have "length (concat (map (\<lambda>j. rail_part (q # p) xs (int j)) [0..<n]))
          = sum_list (map (\<lambda>j. (if j = nat q then 1 else 0) + length (rail_part p xs' (int j)))
              [0..<n])"
    by (simp add: length_concat comp_def)
  also have "\<dots> = sum_list (map (\<lambda>j. if j = nat q then 1 else 0) [0..<n])
                  + sum_list (map (\<lambda>j. length (rail_part p xs' (int j))) [0..<n])"
    by (simp add: sum_list_addf)
  also have "\<dots> = length xs" using sum_list_delta [OF q(1)] ih xs by simp
  finally show ?case .
qed

text \<open>One rail of the allocation loop: the inner \<^verbatim>\<open>for i in range(len(ciphertext))\<close>.\<close>

lemma allocate_rail:
  assumes "nat ri < length rails"
  shows "index + length (filter (\<lambda>i. p ! i = ri) is) \<le> length ct \<Longrightarrow>
     fold (\<lambda>i (rails, index).
             if p ! i = ri
             then (rails[nat ri := rails ! nat ri @ [ct ! index]], index + 1)
             else (rails, index)) is (rails, index)
     = (rails[nat ri := rails ! nat ri
                 @ take (length (filter (\<lambda>i. p ! i = ri) is)) (drop index ct)],
        index + length (filter (\<lambda>i. p ! i = ri) is))"
  using assms
proof (induction "is" arbitrary: rails index)
  case Nil
  then show ?case by simp
next
  case (Cons i "is")
  show ?case
  proof (cases "p ! i = ri")
    case False
    then show ?thesis using Cons by simp
  next
    case True
    define k where "k = length (filter (\<lambda>i. p ! i = ri) is)"
    have idx: "index < length ct" "Suc index + k \<le> length ct"
      using Cons.prems(1) True by (simp_all add: k_def)
    have tk: "take (Suc k) (drop index ct) = ct ! index # take k (drop (Suc index) ct)"
      using idx(1) by (simp add: Cons_nth_drop_Suc [symmetric])
    define rails' where "rails' = rails[nat ri := rails ! nat ri @ [ct ! index]]"
    have len': "nat ri < length rails'" using Cons.prems(2) by (simp add: rails'_def)
    have "fold (\<lambda>i (rails, index).
             if p ! i = ri
             then (rails[nat ri := rails ! nat ri @ [ct ! index]], index + 1)
             else (rails, index)) (i # is) (rails, index)
        = fold (\<lambda>i (rails, index).
             if p ! i = ri
             then (rails[nat ri := rails ! nat ri @ [ct ! index]], index + 1)
             else (rails, index)) is (rails', Suc index)"
      using True by (simp add: rails'_def)
    also have "\<dots> = (rails'[nat ri := rails' ! nat ri @ take k (drop (Suc index) ct)],
                      Suc index + k)"
      unfolding k_def using idx(2) len' by (intro Cons.IH) (simp_all add: k_def)
    also have "rails'[nat ri := rails' ! nat ri @ take k (drop (Suc index) ct)]
                 = rails[nat ri := rails ! nat ri @ take (Suc k) (drop index ct)]"
      using Cons.prems(2) by (simp add: rails'_def tk)
    finally show ?thesis using True by (simp add: k_def)
  qed
qed

lemma take_drop_concat:
  assumes "m < length parts"
  shows "take (length (parts ! m)) (drop (length (concat (take m parts))) (concat parts))
           = parts ! m"
proof -
  have "parts = take m parts @ parts ! m # drop (Suc m) parts"
    using assms by (simp add: id_take_nth_drop [symmetric])
  then have "concat parts = concat (take m parts) @ parts ! m @ concat (drop (Suc m) parts)"
    by (metis concat.simps(2) concat_append)
  then show ?thesis by simp
qed

lemma upto_as_upt: "[0..int n - 1] = map int [0..<n]"
proof (induction n)
  case 0
  then show ?case by simp
next
  case (Suc n)
  have "[0..int (Suc n) - 1] = [0..int n - 1] @ [int n]"
    using upto_rec2 [of 0 "int n"] by simp
  then show ?case using Suc by simp
qed

lemma rail_fence_allocate_parts:
  fixes t :: string
  assumes len: "length p = length t"
    and range: "\<forall>q \<in> set p. 0 \<le> q \<and> q < int n"
  defines "parts \<equiv> map (\<lambda>j. rail_part p t (int j)) [0..<n]"
  shows "fst (rail_fence_allocate (concat parts) p (int n)) = parts"
proof -
  define ct where "ct = concat parts"
  have ct_len: "length ct = length t"
    unfolding ct_def parts_def using rail_parts_length [OF len range] .
  define step where "step = (\<lambda>rail_index.
        fold (\<lambda>i (rails, index).
                if p ! i = rail_index
                then (rails[nat rail_index := rails ! nat rail_index @ [ct ! index]], index + 1)
                else (rails, index))
             [0..<length ct])"
  have parts_len: "length parts = n" by (simp add: parts_def)
  have cnt: "length (filter (\<lambda>i. p ! i = int j) [0..<length ct]) = length (parts ! j)"
    if "j < n" for j
    using that count_positions [of p "int j"] rail_part_length [OF len, of "int j"]
    by (simp add: parts_def ct_len len)
  have inv: "m \<le> n \<Longrightarrow> fold step (map int [0..<m]) (replicate n [], 0)
          = (map (\<lambda>j. if j < m then parts ! j else []) [0..<n], length (concat (take m parts)))"
    for m
  proof (induction m)
    case 0
    then show ?case by (simp add: map_replicate_trivial)
  next
    case (Suc m)
    define R where "R = map (\<lambda>j. if j < m then parts ! j else []) [0..<n]"
    define off where "off = length (concat (take m parts))"
    have m: "m < n" using Suc.prems by simp
    have ih: "fold step (map int [0..<m]) (replicate n [], 0) = (R, off)"
      using Suc by (simp add: R_def off_def)
    have pre: "concat (take (Suc m) parts) = concat (take m parts) @ parts ! m"
      using m parts_len by (simp add: take_Suc_conv_app_nth)
    have "length (concat (take (Suc m) parts)) \<le> length (concat (take (Suc m) parts
            @ drop (Suc m) parts))"
      unfolding concat_append by simp
    then have bound: "off + length (parts ! m) \<le> length ct"
      by (simp add: pre off_def ct_def)
    have Rm: "nat (int m) < length R" "R ! m = []" using m by (simp_all add: R_def)
    have "step (int m) (R, off)
            = (R[nat (int m) := R ! nat (int m)
                   @ take (length (filter (\<lambda>i. p ! i = int m) [0..<length ct])) (drop off ct)],
               off + length (filter (\<lambda>i. p ! i = int m) [0..<length ct]))"
      unfolding step_def using bound Rm(1) cnt [OF m] by (intro allocate_rail) simp_all
    also have "\<dots> = (R[m := parts ! m], off + length (parts ! m))"
    proof -
      have "take (length (parts ! m)) (drop off ct) = parts ! m"
        unfolding off_def ct_def using take_drop_concat [of m parts] m parts_len by simp
      then show ?thesis using Rm(2) by (simp add: cnt [OF m])
    qed
    also have "R[m := parts ! m] = map (\<lambda>j. if j < Suc m then parts ! j else []) [0..<n]"
      using m by (intro nth_equalityI) (auto simp: R_def nth_list_update less_Suc_eq)
    finally show ?case using ih by (simp add: pre off_def)
  qed
  have "rail_fence_allocate ct p (int n) = fold step (map int [0..<n]) (replicate n [], 0)"
    by (simp add: rail_fence_allocate_def step_def upto_as_upt)
  also have "\<dots> = (map (\<lambda>j. if j < n then parts ! j else []) [0..<n],
                    length (concat (take n parts)))"
    using inv [of n] by simp
  also have "map (\<lambda>j. if j < n then parts ! j else []) [0..<n] = parts"
    using parts_len by (intro nth_equalityI) simp_all
  finally show ?thesis by (simp add: ct_def)
qed

lemma rail_fence_read_parts:
  "length p = length t \<Longrightarrow> \<forall>q \<in> set p. 0 \<le> q \<and> nat q < length counter \<Longrightarrow>
   \<forall>j < length counter. drop (counter ! j) (R ! j) = rail_part p t (int j) \<Longrightarrow>
   rail_fence_read p R counter = t"
proof (induction p arbitrary: t counter)
  case Nil
  then show ?case by simp
next
  case (Cons q p)
  then obtain c t' where t: "t = c # t'" by (cases t) auto
  define j0 where "j0 = nat q"
  have q: "int j0 = q" "j0 < length counter" using Cons.prems(2) by (simp_all add: j0_def)
  have d: "drop (counter ! j0) (R ! j0) = c # rail_part p t' q"
    using Cons.prems(3) q by (auto simp: t)
  then have lt: "counter ! j0 < length (R ! j0)"
    by (metis drop_all list.distinct(1) not_le_imp_less)
  have hd: "R ! j0 ! (counter ! j0) = c"
    using d lt by (metis Cons_nth_drop_Suc list.inject)
  have tl: "drop (Suc (counter ! j0)) (R ! j0) = rail_part p t' q"
    using d lt by (metis Cons_nth_drop_Suc list.inject)
  have "rail_fence_read p R (counter[j0 := counter ! j0 + 1]) = t'"
  proof (rule Cons.IH)
    show "length p = length t'" using Cons.prems(1) t by simp
    show "\<forall>q \<in> set p. 0 \<le> q \<and> nat q < length (counter[j0 := counter ! j0 + 1])"
      using Cons.prems(2) by simp
    show "\<forall>j < length (counter[j0 := counter ! j0 + 1]).
            drop (counter[j0 := counter ! j0 + 1] ! j) (R ! j) = rail_part p t' (int j)"
    proof (intro allI impI)
      fix j assume j: "j < length (counter[j0 := counter ! j0 + 1])"
      show "drop (counter[j0 := counter ! j0 + 1] ! j) (R ! j) = rail_part p t' (int j)"
      proof (cases "j = j0")
        case True
        then show ?thesis using tl q by simp
      next
        case False
        then have "q \<noteq> int j" using q(1) by auto
        then show ?thesis using Cons.prems(3) j False by (auto simp: t)
      qed
    qed
  qed
  then show ?case using hd by (simp add: t j0_def)
qed

lemma zigzag_start_range:
  assumes "2 \<le> n"
  shows "\<forall>q \<in> set (zigzag k n 0 1). 0 \<le> q \<and> q < int (nat n)"
proof -
  have "zigzag_ok n 0 1" using assms by (simp add: zigzag_ok_def)
  then show ?thesis using zigzag_range [OF assms] assms by auto
qed

lemma rail_fence_encrypt_parts:
  assumes "2 \<le> n"
  shows "rail_fence_encrypt t n
           = concat (map (\<lambda>j. rail_part (zigzag (length t) n 0 1) t (int j)) [0..<nat n])"
proof -
  have wr: "\<forall>r \<in> set (zigzag (length t) n 0 1). 0 \<le> r \<and> nat r < length (replicate (nat n) '''')"
    using zigzag_start_range [OF assms, of "length t"] assms by auto
  have "rail_fence_write t n 0 1 (replicate (nat n) '''')
          = map (\<lambda>j. replicate (nat n) '''' ! j @ rail_part (zigzag (length t) n 0 1) t (int j))
              [0..<nat n]"
    using rail_fence_write_parts [OF wr] by simp
  also have "\<dots> = map (\<lambda>j. rail_part (zigzag (length t) n 0 1) t (int j)) [0..<nat n]"
    by simp
  finally show ?thesis using assms by (simp add: rail_fence_encrypt_def)
qed

lemma rail_fence_encrypt_length: "length (rail_fence_encrypt t n) = length t"
proof (cases "2 \<le> n")
  case True
  show ?thesis
    unfolding rail_fence_encrypt_parts [OF True]
    by (rule rail_parts_length [OF _ zigzag_start_range [OF True]]) simp
next
  case False
  then show ?thesis by (simp add: rail_fence_encrypt_def)
qed

lemma rail_fence_round_trip:
  assumes "2 \<le> n"
  shows "rail_fence_decrypt (rail_fence_encrypt t n) n = t"
proof -
  define p where "p = zigzag (length t) n 0 1"
  define parts where "parts = map (\<lambda>j. rail_part p t (int j)) [0..<nat n]"
  have range: "\<forall>q \<in> set p. 0 \<le> q \<and> q < int (nat n)"
    unfolding p_def by (rule zigzag_start_range [OF assms])
  have len: "length p = length t" by (simp add: p_def)
  have n: "int (nat n) = n" using assms by simp
  have enc: "rail_fence_encrypt t n = concat parts"
    unfolding parts_def p_def by (rule rail_fence_encrypt_parts [OF assms])
  have ct_len: "length (concat parts) = length t"
    unfolding parts_def by (rule rail_parts_length [OF len range])
  have alloc: "fst (rail_fence_allocate (concat parts) p n) = parts"
    using rail_fence_allocate_parts [OF len range] unfolding n parts_def .
  have "rail_fence_read p parts (replicate (nat n) 0) = t"
  proof (rule rail_fence_read_parts [OF len])
    show "\<forall>q \<in> set p. 0 \<le> q \<and> nat q < length (replicate (nat n) (0::nat))"
      using range assms by auto
    show "\<forall>j < length (replicate (nat n) (0::nat)).
            drop (replicate (nat n) 0 ! j) (parts ! j) = rail_part p t (int j)"
      by (simp add: parts_def)
  qed
  then show ?thesis
    using assms alloc
    by (simp add: enc rail_fence_decrypt_def Let_def ct_len p_def [symmetric] case_prod_unfold)
qed

lemma mset_rotate: "mset (rotate n xs) = mset xs"
proof -
  define k where "k = n mod length xs"
  have "mset (rotate n xs) = mset (drop k xs) + mset (take k xs)"
    by (simp add: rotate_drop_take k_def)
  also have "\<dots> = mset (take k xs @ drop k xs)"
    by (simp only: mset_append add.commute)
  also have "\<dots> = mset xs" by simp
  finally show ?thesis .
qed

text \<open>
  Claim C1. For every text: decoding a Rail-Fence ciphertext with the number of rails it
  was made with gives the text back, whatever that number is; with at most one rail both
  directions return their input; and decoding a Disruptive ciphertext with its key gives
  the text back, provided the library's \<^verbatim>\<open>shuffle\<close> rearranges its list (the same way for the
  same seed, being a function). Neither cipher changes the length of the text.
\<close>

theorem exact_round_trip:
  assumes "\<forall>seed xs. mset (shuffle seed xs) = mset xs"
  shows "rail_fence_decrypt (rail_fence_encrypt s num_rails) num_rails = s
    \<and> length (rail_fence_encrypt s num_rails) = length s
    \<and> (num_rails \<le> 1 \<longrightarrow> rail_fence_encrypt s num_rails = s \<and> rail_fence_decrypt s num_rails = s)
    \<and> disruptive_transposition_decrypt shuffle
         (disruptive_transposition_encrypt shuffle s key) key = s
    \<and> length (disruptive_transposition_encrypt shuffle s key) = length s"
proof (intro conjI impI)
  show "rail_fence_decrypt (rail_fence_encrypt s num_rails) num_rails = s"
  proof (cases "2 \<le> num_rails")
    case True
    then show ?thesis by (rule rail_fence_round_trip)
  next
    case False
    then show ?thesis by (simp add: rail_fence_encrypt_def rail_fence_decrypt_def)
  qed
  show "length (rail_fence_encrypt s num_rails) = length s"
    by (rule rail_fence_encrypt_length)
  show "rail_fence_encrypt s num_rails = s" if "num_rails \<le> 1"
    using that by (simp add: rail_fence_encrypt_def)
  show "rail_fence_decrypt s num_rails = s" if "num_rails \<le> 1"
    using that by (simp add: rail_fence_decrypt_def)
  show "disruptive_transposition_decrypt shuffle
         (disruptive_transposition_encrypt shuffle s key) key = s"
    using assms by (rule disruptive_round_trip)
  show "length (disruptive_transposition_encrypt shuffle s key) = length s"
    using assms by (intro disruptive_encrypt_nth(1)) simp
qed

text \<open>
  The theorem at three rails and at one rail, with a rotation by the seed standing for
  the shuffle.
\<close>

theorem exact_round_trip_witness:
  "(\<forall>seed xs. mset (rotate (nat seed) xs) = mset (xs :: nat list))
   \<and> rail_fence_encrypt ''WEAREDISCOVEREDFLEEATONCE'' 3 = ''WECRLTEERDSOEEFEAOCAIVDEN''
   \<and> rail_fence_decrypt ''WECRLTEERDSOEEFEAOCAIVDEN'' 3 = ''WEAREDISCOVEREDFLEEATONCE''
   \<and> (1::int) \<le> 1 \<and> rail_fence_encrypt ''HELLO'' 1 = ''HELLO''
   \<and> rail_fence_decrypt ''HELLO'' 1 = ''HELLO''
   \<and> disruptive_transposition_encrypt (\<lambda>seed xs. rotate (nat seed) xs) ''HELLO'' ''k''
        = ''LOHEL''
   \<and> disruptive_transposition_decrypt (\<lambda>seed xs. rotate (nat seed) xs) ''LOHEL'' ''k''
        = ''HELLO''"
proof -
  have sh: "\<forall>seed xs. mset (rotate (nat seed) xs) = mset (xs :: nat list)"
    by (simp add: mset_rotate)
  have e1: "rail_fence_encrypt ''WEAREDISCOVEREDFLEEATONCE'' 3 = ''WECRLTEERDSOEEFEAOCAIVDEN''"
    by code_simp
  have e2: "disruptive_transposition_encrypt (\<lambda>seed xs. rotate (nat seed) xs) ''HELLO'' ''k''
              = ''LOHEL''"
    by code_simp
  note t3 = exact_round_trip [OF sh, where s = "''WEAREDISCOVEREDFLEEATONCE''" and num_rails = 3]
  note t1 = exact_round_trip [OF sh, where s = "''HELLO''" and num_rails = 1 and key = "''k''"]
  from t3 e1 have "rail_fence_decrypt ''WECRLTEERDSOEEFEAOCAIVDEN'' 3
                     = ''WEAREDISCOVEREDFLEEATONCE''" by simp
  moreover from t1 have "rail_fence_encrypt ''HELLO'' 1 = ''HELLO''"
    "rail_fence_decrypt ''HELLO'' 1 = ''HELLO''" by simp_all
  moreover from t1 e2 have "disruptive_transposition_decrypt (\<lambda>seed xs. rotate (nat seed) xs)
                              ''LOHEL'' ''k'' = ''HELLO''" by simp
  ultimately show ?thesis using sh e1 e2 by simp
qed

section \<open>Round trips through the padded grid: Columnar and Myszkowski\<close>

subsection \<open>The padded grid\<close>

lemma rows_cover:
  fixes nc :: nat
  assumes "0 < nc"
  shows "len \<le> (len + nc - 1) div nc * nc"
proof -
  have "len + nc - 1 = (len + nc - 1) div nc * nc + (len + nc - 1) mod nc" by simp
  moreover have "(len + nc - 1) mod nc < nc" using assms by simp
  ultimately show ?thesis using assms by linarith
qed

lemma ljust_pad:
  "ljust t (int n) c = t @ replicate (n - length t) c"
  by (simp add: ljust_def nat_diff_distrib')

lemma build_matrix_length [simp]: "length (build_matrix p nc nr index) = nr"
  by (induction nr arbitrary: index) simp_all

lemma build_matrix_nth:
  "r < nr \<Longrightarrow> build_matrix p nc nr index ! r = map (\<lambda>j. p ! (index + r * nc + j)) [0..<nc]"
proof (induction nr arbitrary: index r)
  case 0
  then show ?case by simp
next
  case (Suc nr)
  show ?case
  proof (cases r)
    case 0
    then show ?thesis by simp
  next
    case (Suc r')
    then have "r' < nr" using Suc.prems by simp
    from Suc.IH [OF this, of "index + nc"] show ?thesis
      using Suc by (simp add: ac_simps)
  qed
qed

lemma rstrip_padded:
  assumes "t = [] \<or> last t \<noteq> c"
  shows "rstrip (t @ replicate k c) c = t"
proof -
  have "dropWhile (\<lambda>x. x = c) (replicate k c @ rev t) = dropWhile (\<lambda>x. x = c) (rev t)"
    by (simp add: dropWhile_append)
  moreover have "dropWhile (\<lambda>x. x = c) (rev t) = rev t"
  proof (cases "rev t")
    case Nil
    then show ?thesis by simp
  next
    case (Cons x xs)
    then have "last t = x" by (metis last_rev list.sel(1) rev_rev_ident hd_rev)
    moreover have "t \<noteq> []" using Cons by auto
    ultimately show ?thesis using assms Cons by simp
  qed
  ultimately show ?thesis by (simp add: rstrip_def)
qed

lemma upt_next_row: "[0..<Suc nr * nc] = [0..<nr * nc] @ map (\<lambda>c. nr * nc + c) [0..<nc]"
proof -
  have "map (\<lambda>c. nr * nc + c) [0..<nc] = map (\<lambda>c. c + nr * nc) [0..<nc]"
    by (simp add: add.commute)
  also have "\<dots> = [nr * nc..<nc + nr * nc]" by (rule map_add_upt)
  finally have m: "map (\<lambda>c. nr * nc + c) [0..<nc] = [nr * nc..<nr * nc + nc]"
    by (simp only: add.commute)
  have "[0..<nr * nc + nc] = [0..<nr * nc] @ [nr * nc..<nr * nc + nc]"
    by (rule upt_add_eq_append) simp
  moreover have "Suc nr * nc = nr * nc + nc" by simp
  ultimately show ?thesis by (simp only: m)
qed

lemma map_grid:
  "concat (map (\<lambda>r. map (\<lambda>c. f (r * nc + c)) [0..<nc]) [0..<nr]) = map f [0..<nr * nc]"
proof (induction nr)
  case 0
  then show ?case by simp
next
  case (Suc nr)
  have "concat (map (\<lambda>r. map (\<lambda>c. f (r * nc + c)) [0..<nc]) [0..<Suc nr])
          = map f [0..<nr * nc] @ map (\<lambda>c. f (nr * nc + c)) [0..<nc]"
    using Suc by simp
  also have "\<dots> = map f ([0..<nr * nc] @ map (\<lambda>c. nr * nc + c) [0..<nc])"
    by (simp add: comp_def)
  finally show ?case by (simp only: upt_next_row)
qed

lemma nth_concat_blocks:
  "\<forall>b \<in> set bs. length b = n \<Longrightarrow> k < length bs \<Longrightarrow> r < n \<Longrightarrow> concat bs ! (k * n + r) = bs ! k ! r"
proof (induction bs arbitrary: k)
  case Nil
  then show ?case by simp
next
  case (Cons b bs)
  show ?case
  proof (cases k)
    case 0
    then show ?thesis using Cons.prems by (simp add: nth_append)
  next
    case (Suc k')
    then show ?thesis using Cons by (simp add: nth_append)
  qed
qed

lemma length_concat_blocks:
  "\<forall>b \<in> set bs. length b = n \<Longrightarrow> length (concat bs) = length bs * n"
  by (induction bs) simp_all

subsection \<open>The key order\<close>

lemma key_order_columns:
  "mset (map fst (key_order key)) = mset [0..<length key]"
proof -
  have "mset (map fst (key_order key)) = mset (map fst (enumerate 0 key))"
    unfolding key_order_def by (metis mset_map mset_sort)
  then show ?thesis by simp
qed

lemma index_of_nth: "x \<in> set xs \<Longrightarrow> xs ! index_of x xs = x"
  by (induction xs) auto

lemma index_of_less: "x \<in> set xs \<Longrightarrow> index_of x xs < length xs"
  by (induction xs) auto

subsection \<open>Columnar transposition\<close>

text \<open>One column of the decoder's loop: the inner \<^verbatim>\<open>for r in range(num_rows)\<close>.\<close>

lemma fill_column:
  assumes "k \<le> length m"
  shows "fold (\<lambda>r (matrix, index).
                 (matrix[r := (matrix ! r)[ci := [ct ! index]]], index + 1)) [0..<k] (m, index)
           = (map (\<lambda>r. if r < k then (m ! r)[ci := [ct ! (index + r)]] else m ! r) [0..<length m],
              index + k)"
  using assms
proof (induction k)
  case 0
  then show ?case by (simp add: map_nth)
next
  case (Suc k)
  define m' where "m' = map (\<lambda>r. if r < k then (m ! r)[ci := [ct ! (index + r)]] else m ! r)
                          [0..<length m]"
  have k: "k < length m" using Suc.prems by simp
  have "m'[k := (m' ! k)[ci := [ct ! (index + k)]]]
          = map (\<lambda>r. if r < Suc k then (m ! r)[ci := [ct ! (index + r)]] else m ! r) [0..<length m]"
    using k by (intro nth_equalityI) (auto simp: m'_def nth_list_update less_Suc_eq)
  then show ?case using Suc k by (simp add: m'_def)
qed

lemma columnar_fill_cols: "columnar_fill ct nr order = fill_cols ct nr (map fst order)"
  by (simp add: columnar_fill_def fill_cols_def fold_map comp_def case_prod_unfold)

lemma fill_cols_cells:
  assumes "distinct cols" "length m = nr"
  shows "length (fst (fill_cols ct nr cols (m, index))) = nr
    \<and> snd (fill_cols ct nr cols (m, index)) = index + length cols * nr
    \<and> (\<forall>r < nr. length (fst (fill_cols ct nr cols (m, index)) ! r) = length (m ! r)
          \<and> (\<forall>c < length (m ! r). fst (fill_cols ct nr cols (m, index)) ! r ! c
                = (if c \<in> set cols then [ct ! (index + index_of c cols * nr + r)]
                   else m ! r ! c)))"
  using assms
proof (induction cols arbitrary: m index)
  case Nil
  then show ?case by (simp add: fill_cols_def)
next
  case (Cons c0 cols)
  define m1 where "m1 = map (\<lambda>r. (m ! r)[c0 := [ct ! (index + r)]]) [0..<nr]"
  have "map (\<lambda>r. if r < nr then (m ! r)[c0 := [ct ! (index + r)]] else m ! r) [0..<length m] = m1"
    using Cons.prems(2) by (intro nth_equalityI) (simp_all add: m1_def)
  then have step: "fill_cols ct nr (c0 # cols) (m, index) = fill_cols ct nr cols (m1, index + nr)"
    using fill_column [of nr m c0 ct index] Cons.prems(2)
    by (simp add: fill_cols_def)
  have m1_len: "length m1 = nr" by (simp add: m1_def)
  have d: "distinct cols" "c0 \<notin> set cols" using Cons.prems(1) by simp_all
  note ih = Cons.IH [OF d(1) m1_len, of "index + nr"]
  show ?case unfolding step
  proof (intro conjI allI impI)
    show "length (fst (fill_cols ct nr cols (m1, index + nr))) = nr" using ih by simp
    show "snd (fill_cols ct nr cols (m1, index + nr)) = index + length (c0 # cols) * nr"
      using ih by simp
  next
    fix r assume r: "r < nr"
    then have m1r: "m1 ! r = (m ! r)[c0 := [ct ! (index + r)]]" by (simp add: m1_def)
    show "length (fst (fill_cols ct nr cols (m1, index + nr)) ! r) = length (m ! r)"
      using ih r m1r by simp
    fix c assume c: "c < length (m ! r)"
    then have c1: "c < length (m1 ! r)" using m1r by simp
    have "fst (fill_cols ct nr cols (m1, index + nr)) ! r ! c
            = (if c \<in> set cols then [ct ! (index + nr + index_of c cols * nr + r)]
               else m1 ! r ! c)"
      using ih r c1 by blast
    also have "\<dots> = (if c \<in> set (c0 # cols)
                      then [ct ! (index + index_of c (c0 # cols) * nr + r)] else m ! r ! c)"
      using d(2) c by (auto simp: m1r nth_list_update ac_simps)
    finally show "fst (fill_cols ct nr cols (m1, index + nr)) ! r ! c
            = (if c \<in> set (c0 # cols)
               then [ct ! (index + index_of c (c0 # cols) * nr + r)] else m ! r ! c)" .
  qed
qed

lemma concat_twice: "concat (concat xss) = concat (map concat xss)"
  by (induction xss) simp_all

lemma concat_cells:
  assumes "length m = nr" "\<forall>r < nr. length (m ! r) = nc"
    and "\<forall>r < nr. \<forall>c < nc. m ! r ! c = [p ! (r * nc + c)]"
    and "length p = nr * nc"
  shows "concat (concat m) = p" and "concat (map concat m) = p"
proof -
  have m: "m = map (\<lambda>r. map (\<lambda>c. [p ! (r * nc + c)]) [0..<nc]) [0..<nr]"
    using assms(1-3) by (intro nth_equalityI) (simp_all add: list_eq_iff_nth_eq)
  have "concat (map concat m) = concat (map (\<lambda>r. map (\<lambda>c. p ! (r * nc + c)) [0..<nc]) [0..<nr])"
    by (subst m) (simp add: comp_def concat_map_singleton)
  also have "\<dots> = map ((!) p) [0..<nr * nc]" by (rule map_grid)
  also have "\<dots> = p" unfolding assms(4) [symmetric] by (rule map_nth)
  finally show "concat (map concat m) = p" .
  then show "concat (concat m) = p" by (simp add: concat_twice)
qed

lemma columnar_encrypt_cells:
  fixes t key :: string
  assumes "key \<noteq> []"
  defines "nc \<equiv> length key"
  defines "nr \<equiv> (length t + nc - 1) div nc"
  defines "p \<equiv> t @ replicate (nr * nc - length t) CHR ''X''"
  defines "cols \<equiv> map fst (key_order key)"
  shows "columnar_transposition_encrypt t key
           = Inr (concat (map (\<lambda>ci. map (\<lambda>r. p ! (r * nc + ci)) [0..<nr]) cols))"
proof -
  have cols: "\<forall>ci \<in> set cols. ci < nc"
    using mset_eq_setD [OF key_order_columns [of key]] by (auto simp: cols_def nc_def)
  have row: "map (\<lambda>row. row ! ci) (build_matrix p nc nr 0) = map (\<lambda>r. p ! (r * nc + ci)) [0..<nr]"
    if "ci < nc" for ci
    using that by (intro nth_equalityI) (simp_all add: build_matrix_nth)
  have "map (\<lambda>(col_index, _). map (\<lambda>row. row ! col_index) (build_matrix p nc nr 0)) (key_order key)
          = map (\<lambda>ci. map (\<lambda>row. row ! ci) (build_matrix p nc nr 0)) cols"
    by (simp add: cols_def comp_def case_prod_unfold)
  also have "\<dots> = map (\<lambda>ci. map (\<lambda>r. p ! (r * nc + ci)) [0..<nr]) cols"
    using cols row by (intro map_cong) auto
  finally show ?thesis using assms(1)
    by (simp add: columnar_transposition_encrypt_def Let_def ljust_pad nc_def nr_def p_def)
qed

lemma columnar_round_trip:
  assumes key: "key \<noteq> []" and tail: "t = [] \<or> last t \<noteq> CHR ''X''"
  shows "\<exists>ct. columnar_transposition_encrypt t key = Inr ct
           \<and> columnar_transposition_decrypt ct key = Inr t"
proof -
  define nc where "nc = length key"
  define nr where "nr = (length t + nc - 1) div nc"
  define p where "p = t @ replicate (nr * nc - length t) CHR ''X''"
  define cols where "cols = map fst (key_order key)"
  define ct where "ct = concat (map (\<lambda>ci. map (\<lambda>r. p ! (r * nc + ci)) [0..<nr]) cols)"
  have nc: "0 < nc" using key by (simp add: nc_def)
  have enc: "columnar_transposition_encrypt t key = Inr ct"
    unfolding ct_def cols_def p_def nr_def nc_def by (rule columnar_encrypt_cells [OF key])
  have mcols: "mset cols = mset [0..<nc]" unfolding cols_def nc_def by (rule key_order_columns)
  have cols_len: "length cols = nc" using mset_eq_length [OF mcols] by simp
  have cols_dist: "distinct cols" using mset_eq_imp_distinct_iff [OF mcols] by simp
  have cols_set: "set cols = {0..<nc}" using mset_eq_setD [OF mcols] by simp
  have p_len: "length p = nr * nc"
    using rows_cover [OF nc, of "length t"] by (simp add: p_def nr_def)
  have ct_len: "length ct = nc * nr"
    unfolding ct_def using length_concat_blocks [of "map (\<lambda>ci. map (\<lambda>r. p ! (r * nc + ci)) [0..<nr]) cols" nr]
    by (simp add: cols_len)
  have rows: "length ct div nc = nr" using nc by (simp add: ct_len)
  have ct_nth: "ct ! (k * nr + r) = p ! (r * nc + cols ! k)" if "k < nc" "r < nr" for k r
    unfolding ct_def
    using nth_concat_blocks [of "map (\<lambda>ci. map (\<lambda>r. p ! (r * nc + ci)) [0..<nr]) cols" nr k r]
      that cols_len by simp
  define m0 :: "string list list" where "m0 = replicate nr (replicate nc '''')"
  define m where "m = fst (fill_cols ct nr cols (m0, 0))"
  have m0_len: "length m0 = nr" by (simp add: m0_def)
  note cells = fill_cols_cells [OF cols_dist m0_len, of ct 0, folded m_def]
  have m_len: "length m = nr" using cells by simp
  have m_rows: "\<forall>r < nr. length (m ! r) = nc" using cells by (simp add: m0_def)
  have m_cell: "\<forall>r < nr. \<forall>c < nc. m ! r ! c = [p ! (r * nc + c)]"
  proof (intro allI impI)
    fix r c assume r: "r < nr" and c: "c < nc"
    have cin: "c \<in> set cols" using c cols_set by simp
    have "m ! r ! c = [ct ! (index_of c cols * nr + r)]"
      using cells r c cin by (simp add: m0_def)
    also have "\<dots> = [p ! (r * nc + cols ! index_of c cols)]"
      using ct_nth [OF _ r, of "index_of c cols"] index_of_less [OF cin] cols_len by simp
    finally show "m ! r ! c = [p ! (r * nc + c)]" by (simp add: index_of_nth [OF cin])
  qed
  have "concat (concat m) = p" by (rule concat_cells(1) [OF m_len m_rows m_cell p_len])
  then have "rstrip (concat (concat m)) CHR ''X'' = t"
    unfolding p_def using rstrip_padded [OF tail] by simp
  then have "columnar_transposition_decrypt ct key = Inr t"
    using key rows nc
    by (simp add: columnar_transposition_decrypt_def Let_def columnar_fill_cols
          nc_def [symmetric] cols_def [symmetric] m0_def [symmetric] m_def case_prod_unfold)
  with enc show ?thesis by blast
qed

subsection \<open>Myszkowski: the groups of columns\<close>

lemma map_of_setdefault_append:
  "map_of (setdefault_append g l i) l'
     = (if l' = l then Some ((case map_of g l of None \<Rightarrow> [] | Some v \<Rightarrow> v) @ [i])
        else map_of g l')"
  by (induction g l i rule: setdefault_append.induct) auto

lemma keys_setdefault_append:
  "map fst (setdefault_append g l i)
     = (if l \<in> set (map fst g) then map fst g else map fst g @ [l])"
  by (induction g l i rule: setdefault_append.induct) auto

lemma key_groups_snoc:
  "key_groups (key @ [c]) = setdefault_append (key_groups key) c (length key)"
  by (simp add: key_groups_def enumerate_append_eq)

lemma key_groups_keys:
  "distinct (map fst (key_groups key)) \<and> set (map fst (key_groups key)) = set key"
proof (induction key rule: rev_induct)
  case Nil
  then show ?case by (simp add: key_groups_def)
next
  case (snoc c key)
  then show ?case by (auto simp: key_groups_snoc keys_setdefault_append)
qed

lemma key_cols_snoc:
  "key_cols (key @ [c]) l = key_cols key l @ (if c = l then [length key] else [])"
proof -
  have "filter (\<lambda>i. (key @ [c]) ! i = l) [0..<length key] = filter (\<lambda>i. key ! i = l) [0..<length key]"
    by (intro filter_cong) (simp_all add: nth_append)
  then show ?thesis by (simp add: key_cols_def)
qed

lemma key_cols_empty: "l \<notin> set key \<Longrightarrow> key_cols key l = []"
  by (auto simp: key_cols_def filter_empty_conv)

lemma map_of_key_groups:
  "map_of (key_groups key) l = (if l \<in> set key then Some (key_cols key l) else None)"
proof (induction key rule: rev_induct)
  case Nil
  then show ?case by (simp add: key_groups_def)
next
  case (snoc c key)
  then show ?case
    by (auto simp: key_groups_snoc map_of_setdefault_append key_cols_snoc key_cols_empty)
qed

lemma lookup_key_groups: "l \<in> set key \<Longrightarrow> lookup (key_groups key) l = key_cols key l"
  by (simp add: lookup_def map_of_key_groups)

lemma key_cols_member: "c \<in> set (key_cols key l) \<longleftrightarrow> c < length key \<and> key ! c = l"
  by (auto simp: key_cols_def)

lemma key_cols_distinct: "distinct (key_cols key l)"
  by (simp add: key_cols_def)

lemma sum_list_indicator:
  "distinct ls \<Longrightarrow> x \<in> set ls \<Longrightarrow> sum_list (map (\<lambda>l. if x = l then 1 else 0) ls) = (1::nat)"
proof (induction ls)
  case Nil
  then show ?case by simp
next
  case (Cons l ls)
  show ?case
  proof (cases "x = l")
    case True
    then have "x \<notin> set ls" using Cons.prems(1) by simp
    then have "sum_list (map (\<lambda>l. if x = l then 1 else 0) ls) = (0::nat)"
      by (induction ls) auto
    then show ?thesis using True by simp
  next
    case False
    then show ?thesis using Cons by simp
  qed
qed

lemma sum_list_classes:
  "distinct ls \<Longrightarrow> \<forall>i \<in> set is. f i \<in> set ls \<Longrightarrow>
   sum_list (map (\<lambda>l. length (filter (\<lambda>i. f i = l) is)) ls) = length is"
proof (induction "is")
  case Nil
  then show ?case by simp
next
  case (Cons i "is")
  have "sum_list (map (\<lambda>l. length (filter (\<lambda>i. f i = l) (i # is))) ls)
          = sum_list (map (\<lambda>l. (if f i = l then 1 else 0) + length (filter (\<lambda>i. f i = l) is)) ls)"
    by (intro arg_cong [of _ _ sum_list] map_cong) auto
  also have "\<dots> = sum_list (map (\<lambda>l. if f i = l then 1 else 0) ls)
                  + sum_list (map (\<lambda>l. length (filter (\<lambda>i. f i = l) is)) ls)"
    by (simp add: sum_list_addf)
  also have "\<dots> = 1 + length is"
    using Cons sum_list_indicator [of ls "f i"] by simp
  finally show ?case by simp
qed

lemma key_cols_total:
  assumes "distinct ls" "set ls = set key"
  shows "sum_list (map (\<lambda>l. length (key_cols key l)) ls) = length key"
  unfolding key_cols_def using sum_list_classes [of ls "[0..<length key]" "\<lambda>i. key ! i"] assms
  by simp

text \<open>The sorted letters of the key.\<close>

lemma key_letters: "distinct (key_letters key)" "set (key_letters key) = set key"
  using key_groups_keys [of key] by (simp_all add: key_letters_def)

text \<open>The part of the ciphertext that one group of columns gives: row by row.\<close>

lemma group_block_length: "length (group_block p nc nr cols) = nr * length cols"
  unfolding group_block_def
  using length_concat_blocks [of "map (\<lambda>r. map (\<lambda>col. p ! (r * nc + col)) cols) [0..<nr]" "length cols"]
  by simp

lemma group_block_nth:
  "r < nr \<Longrightarrow> j < length cols \<Longrightarrow>
   group_block p nc nr cols ! (r * length cols + j) = p ! (r * nc + cols ! j)"
  unfolding group_block_def
  using nth_concat_blocks [of "map (\<lambda>r. map (\<lambda>col. p ! (r * nc + col)) cols) [0..<nr]"
      "length cols" r j]
  by simp

lemma myszkowski_encrypt_blocks:
  fixes t key :: string
  assumes "key \<noteq> []"
  defines "nc \<equiv> length key"
  defines "nr \<equiv> (length t + nc - 1) div nc"
  defines "p \<equiv> t @ replicate (nr * nc - length t) CHR ''X''"
  shows "myszkowski_encrypt t key
           = Inr (concat (map (\<lambda>l. group_block p nc nr (key_cols key l)) (key_letters key)))"
proof -
  have cell: "build_matrix p nc nr 0 ! r ! col = p ! (r * nc + col)" if "r < nr" "col < nc" for r col
    using that by (simp add: build_matrix_nth)
  have block: "(let cols = lookup (key_groups key) l in
                if length cols = 1
                then map (\<lambda>r. build_matrix p nc nr 0 ! r ! (cols ! 0)) [0..<nr]
                else concat (map (\<lambda>r. map (\<lambda>col. build_matrix p nc nr 0 ! r ! col) cols) [0..<nr]))
               = group_block p nc nr (key_cols key l)"
    if "l \<in> set (key_letters key)" for l
  proof -
    define cols where "cols = key_cols key l"
    have lk: "lookup (key_groups key) l = cols"
      using that key_letters(2) by (simp add: lookup_key_groups cols_def)
    have in_range: "\<forall>col \<in> set cols. col < nc"
      by (simp add: cols_def key_cols_member nc_def)
    have multi: "concat (map (\<lambda>r. map (\<lambda>col. build_matrix p nc nr 0 ! r ! col) cols) [0..<nr])
                   = group_block p nc nr cols"
      unfolding group_block_def using in_range cell
      by (intro arg_cong [of _ _ concat] map_cong) auto
    have single: "map (\<lambda>r. build_matrix p nc nr 0 ! r ! (cols ! 0)) [0..<nr]
                    = concat (map (\<lambda>r. map (\<lambda>col. build_matrix p nc nr 0 ! r ! col) cols) [0..<nr])"
      if "length cols = 1"
    proof -
      from that obtain c where "cols = [c]" by (cases cols) auto
      then show ?thesis by (simp add: concat_map_singleton)
    qed
    show ?thesis unfolding lk Let_def using multi single
      by (simp add: cols_def [symmetric])
  qed
  have "myszkowski_encrypt t key
          = Inr (concat (map (\<lambda>letter. let cols = lookup (key_groups key) letter in
                if length cols = 1
                then map (\<lambda>r. build_matrix p nc nr 0 ! r ! (cols ! 0)) [0..<nr]
                else concat (map (\<lambda>r. map (\<lambda>col. build_matrix p nc nr 0 ! r ! col) cols) [0..<nr]))
              (key_letters key)))"
    unfolding p_def nr_def nc_def using assms(1)
    by (simp add: myszkowski_encrypt_def Let_def ljust_pad key_letters_def cong: if_cong)
  also have "\<dots> = Inr (concat (map (\<lambda>l. group_block p nc nr (key_cols key l)) (key_letters key)))"
    using block by (simp cong: map_cong)
  finally show ?thesis .
qed

subsection \<open>Myszkowski: the decoder\<close>

lemma slices_fold:
  assumes "\<forall>l \<in> set ls. length (B l) = len l"
  shows "fold (\<lambda>l (gc, rem). (gc @ [(l, take (len l) rem)], drop (len l) rem)) ls
           (gc, concat (map B ls) @ rest)
         = (gc @ map (\<lambda>l. (l, B l)) ls, rest)"
  using assms by (induction ls arbitrary: gc) simp_all

lemma lookup_tabulated: "l \<in> set ls \<Longrightarrow> lookup (map (\<lambda>l. (l, f l)) ls) l = f l"
  by (simp add: lookup_def map_of_map_restrict)

lemma myszkowski_fill_group_write:
  "myszkowski_fill groups group_cipher nr
     = fold (\<lambda>letter. group_write (lookup groups letter) (lookup group_cipher letter) nr)
         (sort (map fst groups))"
  by (simp add: myszkowski_fill_def group_write_def [abs_def] Let_def cong: if_cong)

text \<open>A loop over the rows that changes row \<open>r\<close> in step \<open>r\<close>.\<close>

lemma rows_fold:
  assumes step: "\<And>r m. r < n \<Longrightarrow> length m = n \<Longrightarrow> f r m = m[r := F r (m ! r)]"
  shows "k \<le> n \<Longrightarrow> length m = n \<Longrightarrow>
         fold f [0..<k] m = map (\<lambda>r. if r < k then F r (m ! r) else m ! r) [0..<n]"
proof (induction k)
  case 0
  have "map ((!) m) [0..<length m] = m" by (rule map_nth)
  then have "map ((!) m) [0..<n] = m" using "0.prems" by simp
  then show ?case by simp
next
  case (Suc k)
  define m' where "m' = map (\<lambda>r. if r < k then F r (m ! r) else m ! r) [0..<n]"
  have k: "k < n" using Suc.prems by simp
  have len: "length m' = n" by (simp add: m'_def)
  have "fold f [0..<Suc k] m = f k m'" using Suc by (simp add: m'_def)
  also have "\<dots> = m'[k := F k (m' ! k)]" by (rule step [OF k len])
  also have "\<dots> = map (\<lambda>r. if r < Suc k then F r (m ! r) else m ! r) [0..<n]"
    using k by (intro nth_equalityI) (auto simp: m'_def nth_list_update less_Suc_eq)
  finally show ?case .
qed

lemma row_fold:
  "r < length m \<Longrightarrow>
   fold (\<lambda>(j, col) m. m[r := (m ! r)[col := g j]]) ws m
     = m[r := fold (\<lambda>(j, col) row. row[col := g j]) ws (m ! r)]"
  by (induction ws arbitrary: m) (auto simp: list_update_overwrite)

lemma row_write_cells:
  assumes "distinct cols"
  shows "length (fold (\<lambda>(j, col) row. row[col := g j]) (enumerate 0 cols) row) = length row"
    and "c < length row \<Longrightarrow>
           fold (\<lambda>(j, col) row. row[col := g j]) (enumerate 0 cols) row ! c
             = (if c \<in> set cols then g (index_of c cols) else row ! c)"
proof -
  define ws where "ws = map (\<lambda>(j, col). (col, g j)) (enumerate 0 cols)"
  have row': "fold (\<lambda>(j, col) row. row[col := g j]) (enumerate 0 cols) row
                = fold (\<lambda>(p, v) xs. xs[p := v]) ws row"
    by (simp add: ws_def fold_map comp_def case_prod_unfold)
  have fst_ws: "map fst ws = cols"
    by (simp add: ws_def comp_def case_prod_unfold map_snd_enumerate)
  show "length (fold (\<lambda>(j, col) row. row[col := g j]) (enumerate 0 cols) row) = length row"
    unfolding row' by (rule fold_update_length)
  show "fold (\<lambda>(j, col) row. row[col := g j]) (enumerate 0 cols) row ! c
          = (if c \<in> set cols then g (index_of c cols) else row ! c)" if c: "c < length row"
  proof (cases "c \<in> set cols")
    case True
    have "(index_of c cols, c) \<in> set (enumerate 0 cols)"
      using index_of_less [OF True] index_of_nth [OF True] by (simp add: in_set_enumerate_eq)
    then have "(c, g (index_of c cols)) \<in> set ws"
      by (force simp: ws_def)
    moreover have "distinct (map fst ws)" using assms by (simp only: fst_ws)
    ultimately have "fold (\<lambda>(p, v) xs. xs[p := v]) ws row ! c = g (index_of c cols)"
      using c by (intro fold_update_nth)
    then show ?thesis unfolding row' using True by simp
  next
    case False
    then have "c \<notin> fst ` set ws" using fst_ws by (metis set_map)
    then have "fold (\<lambda>(p, v) xs. xs[p := v]) ws row ! c = row ! c"
      by (rule fold_update_other)
    then show ?thesis unfolding row' using False by simp
  qed
qed

lemma group_write_cells:
  assumes dist: "distinct cols" and len: "length m = nr"
    and tlen: "nr * length cols \<le> length text"
  shows "length (group_write cols text nr m) = nr"
    and "r < nr \<Longrightarrow> length (group_write cols text nr m ! r) = length (m ! r)"
    and "r < nr \<Longrightarrow> c < length (m ! r) \<Longrightarrow>
           group_write cols text nr m ! r ! c
             = (if c \<in> set cols then [text ! (r * length cols + index_of c cols)]
                else m ! r ! c)"
proof -
  define k where "k = length cols"
  define chunk where "chunk = (\<lambda>r. drop (r * k) (take ((r + 1) * k) text))"
  define F where "F = (\<lambda>r row. fold (\<lambda>(j, col) row. row[col := [chunk r ! j]])
                                 (enumerate 0 cols) row)"
  have chunk: "chunk r ! j = text ! (r * k + j)" if "r < nr" "j < k" for r j
  proof -
    have "(r + 1) * k \<le> nr * k" using that(1) by (intro mult_le_mono1) simp
    then have "r * k + j < length (take ((r + 1) * k) text)"
      using that(2) tlen by (simp add: k_def)
    then show ?thesis using that(2) by (simp add: chunk_def)
  qed
  have step: "(let chunk = drop (r * k) (take ((r + 1) * k) text)
               in fold (\<lambda>(j, col) matrix. matrix[r := (matrix ! r)[col := [chunk ! j]]])
                    (enumerate 0 cols) m')
              = m'[r := F r (m' ! r)]" if "r < nr" "length m' = nr" for r m'
    unfolding Let_def F_def chunk_def using that by (intro row_fold) simp
  have "fold (\<lambda>r matrix.
                 let chunk = drop (r * k) (take ((r + 1) * k) text)
                 in fold (\<lambda>(j, col) matrix. matrix[r := (matrix ! r)[col := [chunk ! j]]])
                      (enumerate 0 cols) matrix) [0..<nr] m
          = map (\<lambda>r. if r < nr then F r (m ! r) else m ! r) [0..<nr]"
    by (rule rows_fold [OF step le_refl len])
  also have "\<dots> = map (\<lambda>r. F r (m ! r)) [0..<nr]"
    by (rule map_cong) simp_all
  finally have multi: "fold (\<lambda>r matrix.
                 let chunk = drop (r * k) (take ((r + 1) * k) text)
                 in fold (\<lambda>(j, col) matrix. matrix[r := (matrix ! r)[col := [chunk ! j]]])
                      (enumerate 0 cols) matrix) [0..<nr] m
               = map (\<lambda>r. F r (m ! r)) [0..<nr]" .
  have cells: "F r row ! c = (if c \<in> set cols then [text ! (r * k + index_of c cols)] else row ! c)"
    if "r < nr" "c < length row" for r row c
  proof -
    have "F r row ! c = (if c \<in> set cols then [chunk r ! index_of c cols] else row ! c)"
      unfolding F_def by (rule row_write_cells(2) [OF dist that(2)])
    moreover have "chunk r ! index_of c cols = text ! (r * k + index_of c cols)" if "c \<in> set cols"
      using chunk [OF \<open>r < nr\<close>] index_of_less [OF that] by (simp add: k_def)
    ultimately show ?thesis by simp
  qed
  have lens: "length (F r row) = length row" for r row
    unfolding F_def by (rule row_write_cells(1) [OF dist])
  have single: "fold (\<lambda>r matrix. matrix[r := (matrix ! r)[cols ! 0 := [text ! r]]]) [0..<nr] m
                  = map (\<lambda>r. F r (m ! r)) [0..<nr]" if "length cols = 1"
  proof -
    from that obtain c0 where c0: "cols = [c0]" by (cases cols) auto
    have one: "matrix[r := (matrix ! r)[cols ! 0 := [text ! r]]]
                 = matrix[r := (matrix ! r)[c0 := [text ! r]]]" for r and matrix :: "string list list"
      by (simp add: c0)
    have "fold (\<lambda>r matrix. matrix[r := (matrix ! r)[cols ! 0 := [text ! r]]]) [0..<nr] m
            = map (\<lambda>r. if r < nr then (m ! r)[c0 := [text ! r]] else m ! r) [0..<nr]"
      by (rule rows_fold [OF one le_refl len])
    also have "\<dots> = map (\<lambda>r. F r (m ! r)) [0..<nr]"
    proof (rule map_cong [OF refl])
      fix r assume "r \<in> set [0..<nr]"
      then have r: "r < nr" by simp
      have "chunk r ! 0 = text ! r" using chunk [OF r, of 0] that by (simp add: k_def)
      then show "(if r < nr then (m ! r)[c0 := [text ! r]] else m ! r) = F r (m ! r)"
        using r by (simp add: F_def c0)
    qed
    finally show ?thesis .
  qed
  have gw: "group_write cols text nr m = map (\<lambda>r. F r (m ! r)) [0..<nr]"
    using multi single by (simp add: group_write_def Let_def k_def)
  show "length (group_write cols text nr m) = nr" by (simp add: gw)
  show "length (group_write cols text nr m ! r) = length (m ! r)" if "r < nr"
    using that by (simp add: gw lens)
  show "group_write cols text nr m ! r ! c
          = (if c \<in> set cols then [text ! (r * length cols + index_of c cols)] else m ! r ! c)"
    if "r < nr" "c < length (m ! r)"
    using that cells [OF that] by (simp add: gw k_def)
qed

lemma fill_letters:
  fixes key :: string
  assumes p_len: "length p = nr * nc" and nc: "nc = length key"
  defines "W \<equiv> \<lambda>l. group_write (key_cols key l) (group_block p nc nr (key_cols key l)) nr"
  shows "length m = nr \<Longrightarrow> \<forall>r < nr. length (m ! r) = nc \<Longrightarrow>
     length (fold W ls m) = nr
     \<and> (\<forall>r < nr. length (fold W ls m ! r) = nc
           \<and> (\<forall>c < nc. fold W ls m ! r ! c
                 = (if key ! c \<in> set ls then [p ! (r * nc + c)] else m ! r ! c)))"
proof (induction ls arbitrary: m)
  case Nil
  then show ?case by simp
next
  case (Cons l ls)
  define cols where "cols = key_cols key l"
  define m1 where "m1 = W l m"
  have dist: "distinct cols" by (simp add: cols_def key_cols_distinct)
  have tlen: "nr * length cols \<le> length (group_block p nc nr cols)"
    by (simp add: group_block_length)
  note gw = group_write_cells [OF dist Cons.prems(1) tlen, folded cols_def]
  have m1: "m1 = group_write cols (group_block p nc nr cols) nr m"
    by (simp add: m1_def W_def cols_def)
  have m1_len: "length m1 = nr" unfolding m1 by (rule gw(1))
  have m1_rows: "\<forall>r < nr. length (m1 ! r) = nc"
    unfolding m1 using gw(2) Cons.prems(2) by simp
  have m1_cell: "m1 ! r ! c = (if key ! c = l then [p ! (r * nc + c)] else m ! r ! c)"
    if "r < nr" "c < nc" for r c
  proof -
    have c: "c < length (m ! r)" using that Cons.prems(2) by simp
    have mem: "c \<in> set cols \<longleftrightarrow> key ! c = l"
      using that(2) by (simp add: cols_def key_cols_member nc)
    show ?thesis
    proof (cases "key ! c = l")
      case True
      then have cin: "c \<in> set cols" using mem by simp
      have "m1 ! r ! c = [group_block p nc nr cols ! (r * length cols + index_of c cols)]"
        unfolding m1 using gw(3) [OF that(1) c] cin by simp
      also have "\<dots> = [p ! (r * nc + cols ! index_of c cols)]"
        using group_block_nth [OF that(1) index_of_less [OF cin]] by simp
      finally show ?thesis using True by (simp add: index_of_nth [OF cin])
    next
      case False
      then have "c \<notin> set cols" using mem by simp
      then show ?thesis unfolding m1 using gw(3) [OF that(1) c] False by simp
    qed
  qed
  note ih = Cons.IH [OF m1_len m1_rows]
  have fold: "fold W (l # ls) m = fold W ls m1" by (simp add: m1_def)
  show ?case unfolding fold
  proof (intro conjI allI impI)
    show "length (fold W ls m1) = nr" using ih by simp
  next
    fix r assume r: "r < nr"
    show "length (fold W ls m1 ! r) = nc" using ih r by simp
    fix c assume c: "c < nc"
    have "fold W ls m1 ! r ! c = (if key ! c \<in> set ls then [p ! (r * nc + c)] else m1 ! r ! c)"
      using ih r c by simp
    then show "fold W ls m1 ! r ! c
                 = (if key ! c \<in> set (l # ls) then [p ! (r * nc + c)] else m ! r ! c)"
      using m1_cell [OF r c] by auto
  qed
qed

lemma myszkowski_round_trip:
  fixes t key :: string
  assumes key: "key \<noteq> []" and tail: "t = [] \<or> last t \<noteq> CHR ''X''"
  shows "\<exists>ct. myszkowski_encrypt t key = Inr ct \<and> myszkowski_decrypt ct key = Inr t"
proof -
  define nc where "nc = length key"
  define nr where "nr = (length t + nc - 1) div nc"
  define p where "p = t @ replicate (nr * nc - length t) CHR ''X''"
  define ls where "ls = key_letters key"
  define B where "B = (\<lambda>l. group_block p nc nr (key_cols key l))"
  define ct where "ct = concat (map B ls)"
  have nc: "0 < nc" using key by (simp add: nc_def)
  have enc: "myszkowski_encrypt t key = Inr ct"
    unfolding ct_def B_def ls_def p_def nr_def nc_def by (rule myszkowski_encrypt_blocks [OF key])
  have ls: "distinct ls" "set ls = set key" by (simp_all add: ls_def key_letters)
  have p_len: "length p = nr * nc"
    using rows_cover [OF nc, of "length t"] by (simp add: p_def nr_def)
  have B_len: "length (B l) = nr * length (key_cols key l)" for l
    by (simp add: B_def group_block_length)
  have "length ct = sum_list (map (\<lambda>l. nr * length (key_cols key l)) ls)"
    by (simp add: ct_def length_concat comp_def B_len)
  also have "\<dots> = nr * sum_list (map (\<lambda>l. length (key_cols key l)) ls)"
    by (simp add: sum_list_const_mult)
  also have "\<dots> = nr * nc" using key_cols_total [OF ls] by (simp add: nc_def)
  finally have ct_len: "length ct = nr * nc" .
  have rows: "length ct div nc = nr" using nc by (simp add: ct_len)
  have lk: "lookup (key_groups key) l = key_cols key l" if "l \<in> set ls" for l
    using that ls(2) by (simp add: lookup_key_groups)
  \<comment> \<open>the first loop\<close>
  have "myszkowski_slices (key_groups key) nr ct
          = fold (\<lambda>l (gc, rem). (gc @ [(l, take (nr * length (key_cols key l)) rem)],
                                 drop (nr * length (key_cols key l)) rem)) ls ([], ct)"
    unfolding myszkowski_slices_def key_letters_def [symmetric] ls_def [symmetric]
    by (rule fold_cong [OF refl refl]) (auto simp: lk Let_def fun_eq_iff)
  also have "\<dots> = ([] @ map (\<lambda>l. (l, B l)) ls, [])"
    using slices_fold [of ls B "\<lambda>l. nr * length (key_cols key l)" "[]" "[]"] B_len
    by (simp add: ct_def)
  finally have slices: "myszkowski_slices (key_groups key) nr ct = (map (\<lambda>l. (l, B l)) ls, [])"
    by simp
  \<comment> \<open>the second loop\<close>
  define m0 :: "string list list" where "m0 = replicate nr (replicate nc '''')"
  define W where "W = (\<lambda>l. group_write (key_cols key l) (group_block p nc nr (key_cols key l)) nr)"
  have "myszkowski_fill (key_groups key) (map (\<lambda>l. (l, B l)) ls) nr = fold W ls"
    unfolding myszkowski_fill_group_write key_letters_def [symmetric] ls_def [symmetric]
    by (rule ext, rule fold_cong [OF refl refl])
       (simp add: lk lookup_tabulated W_def B_def)
  then have fill: "myszkowski_fill (key_groups key) (map (\<lambda>l. (l, B l)) ls) nr m0 = fold W ls m0"
    by simp
  have m0: "length m0 = nr" "\<forall>r < nr. length (m0 ! r) = nc" by (simp_all add: m0_def)
  note cells = fill_letters [OF p_len nc_def m0, of ls, folded W_def]
  define m where "m = fold W ls m0"
  have m_len: "length m = nr" using cells by (simp add: m_def)
  have m_rows: "\<forall>r < nr. length (m ! r) = nc" using cells by (simp add: m_def)
  have m_cell: "\<forall>r < nr. \<forall>c < nc. m ! r ! c = [p ! (r * nc + c)]"
  proof (intro allI impI)
    fix r c assume r: "r < nr" and c: "c < nc"
    have "key ! c \<in> set ls" using c ls(2) by (simp add: nc_def)
    then show "m ! r ! c = [p ! (r * nc + c)]" using cells r c by (simp add: m_def)
  qed
  have "concat (map concat m) = p" by (rule concat_cells(2) [OF m_len m_rows m_cell p_len])
  then have "rstrip (concat (map concat m)) CHR ''X'' = t"
    unfolding p_def using rstrip_padded [OF tail] by simp
  then have "myszkowski_decrypt ct key = Inr t"
    using key rows nc
    by (simp add: myszkowski_decrypt_def Let_def nc_def [symmetric] slices
          m0_def [symmetric] fill m_def)
  with enc show ?thesis by blast
qed

text \<open>
  Claim C2. For every non-empty key and every text that does not end in \<open>X\<close>, the Columnar
  and the Myszkowski encoder return a ciphertext without raising, and decoding it with the
  same key returns the text: the padding of the grid is all that the final \<^verbatim>\<open>rstrip\<close> removes.
\<close>

theorem padded_round_trip:
  assumes "key \<noteq> []" and "s = [] \<or> last s \<noteq> CHR ''X''"
  shows "(\<exists>ct. columnar_transposition_encrypt s key = Inr ct
              \<and> columnar_transposition_decrypt ct key = Inr s)
       \<and> (\<exists>ct. myszkowski_encrypt s key = Inr ct \<and> myszkowski_decrypt ct key = Inr s)"
  using columnar_round_trip [OF assms] myszkowski_round_trip [OF assms] by blast

theorem padded_round_trip_witness:
  "''BANANA'' \<noteq> [] \<and> (''HELLOWORLD'' = [] \<or> last ''HELLOWORLD'' \<noteq> CHR ''X'')
   \<and> columnar_transposition_encrypt ''HELLOWORLD'' ''BANANA'' = Inr ''ERLDWXHOLLOX''
   \<and> columnar_transposition_decrypt ''ERLDWXHOLLOX'' ''BANANA'' = Inr ''HELLOWORLD''
   \<and> myszkowski_encrypt ''HELLOWORLD'' ''BANANA'' = Inr ''ELWRDXHOLOLX''
   \<and> myszkowski_decrypt ''ELWRDXHOLOLX'' ''BANANA'' = Inr ''HELLOWORLD''"
proof -
  have k: "''BANANA'' \<noteq> []" by simp
  have x: "''HELLOWORLD'' = [] \<or> last ''HELLOWORLD'' \<noteq> CHR ''X''" by simp
  have c: "columnar_transposition_encrypt ''HELLOWORLD'' ''BANANA'' = Inr ''ERLDWXHOLLOX''"
    by code_simp
  have m: "myszkowski_encrypt ''HELLOWORLD'' ''BANANA'' = Inr ''ELWRDXHOLOLX''"
    by code_simp
  from padded_round_trip [OF k x] c m show ?thesis using k x by simp
qed

section \<open>The Route cipher: the spiral and its round trip\<close>

declare spiral.simps [simp del]
declare route_read.simps [simp del]
declare route_write.simps [simp del]

lemma route_read_lap:
  assumes "t \<le> b" "l \<le> r"
  shows "route_read matrix t b l r result
           = route_read matrix (t + 1) (next_bottom t b) (next_left l r) (r - 1)
               (result @ map (\<lambda>(i, j). matrix ! nat i ! nat j) (lap t b l r))"
  using assms
  by (subst route_read.simps)
     (simp add: Let_def lap_def next_bottom_def next_left_def comp_def)

lemma route_read_spiral:
  "route_read matrix t b l r result
     = result @ map (\<lambda>(i, j). matrix ! nat i ! nat j) (spiral t b l r)"
proof (induction t b l r arbitrary: result rule: spiral.induct)
  case (1 t b l r)
  show ?case
  proof (cases "t \<le> b \<and> l \<le> r")
    case False
    show ?thesis
      by (subst route_read.simps, subst spiral.simps) (simp add: False)
  next
    case True
    then have "route_read matrix t b l r result
                 = route_read matrix (t + 1) (next_bottom t b) (next_left l r) (r - 1)
                     (result @ map (\<lambda>(i, j). matrix ! nat i ! nat j) (lap t b l r))"
      by (intro route_read_lap) simp_all
    also have "\<dots> = (result @ map (\<lambda>(i, j). matrix ! nat i ! nat j) (lap t b l r))
                      @ map (\<lambda>(i, j). matrix ! nat i ! nat j)
                          (spiral (t + 1) (next_bottom t b) (next_left l r) (r - 1))"
      by (rule 1 [OF True])
    also have "\<dots> = result @ map (\<lambda>(i, j). matrix ! nat i ! nat j) (spiral t b l r)"
      by (subst (2) spiral.simps) (simp add: True)
    finally show ?thesis .
  qed
qed

lemma route_put_append:
  "route_put ct (xs @ ys) s
     = (case route_put ct xs s of Inl e \<Rightarrow> Inl e | Inr s' \<Rightarrow> route_put ct ys s')"
proof (induction xs arbitrary: s)
  case Nil
  then show ?case by simp
next
  case (Cons x xs)
  obtain i j where x: "x = (i, j)" by (cases x)
  obtain m index where s: "s = (m, index)" by (cases s)
  show ?case by (simp add: x s Cons)
qed

lemma route_write_lap:
  assumes "t \<le> b" "l \<le> r"
  shows "route_write ct t b l r s
           = (case route_put ct (lap t b l r) s of
                Inl e \<Rightarrow> Inl e
              | Inr s' \<Rightarrow> route_write ct (t + 1) (next_bottom t b) (next_left l r) (r - 1) s')"
  using assms
  by (subst route_write.simps)
     (simp add: Let_def lap_def next_bottom_def next_left_def route_put_append
        split: sum.split)

lemma route_write_spiral:
  "route_write ct t b l r s = route_put ct (spiral t b l r) s"
proof (induction t b l r arbitrary: s rule: spiral.induct)
  case (1 t b l r)
  show ?case
  proof (cases "t \<le> b \<and> l \<le> r")
    case False
    show ?thesis
      by (subst route_write.simps, subst spiral.simps) (simp add: False)
  next
    case True
    then have "route_write ct t b l r s
                 = (case route_put ct (lap t b l r) s of
                      Inl e \<Rightarrow> Inl e
                    | Inr s' \<Rightarrow> route_write ct (t + 1) (next_bottom t b) (next_left l r) (r - 1) s')"
      by (intro route_write_lap) simp_all
    also have "\<dots> = (case route_put ct (lap t b l r) s of
                      Inl e \<Rightarrow> Inl e
                    | Inr s' \<Rightarrow> route_put ct
                        (spiral (t + 1) (next_bottom t b) (next_left l r) (r - 1)) s')"
      by (simp add: 1 [OF True] cong: sum.case_cong)
    also have "\<dots> = route_put ct (spiral t b l r) s"
      by (subst (2) spiral.simps) (simp add: True route_put_append)
    finally show ?thesis .
  qed
qed

lemma row_member: "(i, j) \<in> Pair a ` {l..r} \<longleftrightarrow> i = a \<and> l \<le> j \<and> j \<le> r"
  by auto

lemma column_member: "(i, j) \<in> (\<lambda>x. (x, a)) ` {l..r} \<longleftrightarrow> j = a \<and> l \<le> i \<and> i \<le> r"
  by auto

lemma lap_member:
  assumes "t \<le> b" "l \<le> r"
  shows "(i, j) \<in> set (lap t b l r)
           \<longleftrightarrow> t \<le> i \<and> i \<le> b \<and> l \<le> j \<and> j \<le> r \<and> (i = t \<or> j = r \<or> i = b \<or> j = l)"
proof -
  have "(i, j) \<in> set (lap t b l r)
          \<longleftrightarrow> (i = t \<and> l \<le> j \<and> j \<le> r)
            \<or> (j = r \<and> t + 1 \<le> i \<and> i \<le> b)
            \<or> (t + 1 \<le> b \<and> i = b \<and> l \<le> j \<and> j \<le> r - 1)
            \<or> (l \<le> r - 1 \<and> j = l \<and> t + 1 \<le> i \<and> i \<le> next_bottom t b)"
    by (simp add: lap_def row_member column_member del: image_eqI)
  also have "\<dots> \<longleftrightarrow> t \<le> i \<and> i \<le> b \<and> l \<le> j \<and> j \<le> r \<and> (i = t \<or> j = r \<or> i = b \<or> j = l)"
    using assms unfolding next_bottom_def by (cases "t + 1 \<le> b") auto
  finally show ?thesis .
qed

lemma spiral_member:
  "(i, j) \<in> set (spiral t b l r) \<longleftrightarrow> t \<le> i \<and> i \<le> b \<and> l \<le> j \<and> j \<le> r"
proof (induction t b l r rule: spiral.induct)
  case (1 t b l r)
  show ?case
  proof (cases "t \<le> b \<and> l \<le> r")
    case False
    then show ?thesis by (subst spiral.simps) auto
  next
    case True
    have "(i, j) \<in> set (spiral t b l r)
            \<longleftrightarrow> (i, j) \<in> set (lap t b l r)
              \<or> (i, j) \<in> set (spiral (t + 1) (next_bottom t b) (next_left l r) (r - 1))"
      by (subst spiral.simps) (simp add: True)
    also have "\<dots> \<longleftrightarrow>
         (t \<le> i \<and> i \<le> b \<and> l \<le> j \<and> j \<le> r \<and> (i = t \<or> j = r \<or> i = b \<or> j = l))
         \<or> (t + 1 \<le> i \<and> i \<le> next_bottom t b \<and> next_left l r \<le> j \<and> j \<le> r - 1)"
      using True by (simp only: lap_member 1 [OF True])
    also have "\<dots> \<longleftrightarrow> t \<le> i \<and> i \<le> b \<and> l \<le> j \<and> j \<le> r"
      unfolding next_bottom_def next_left_def
      by (cases "t + 1 \<le> b"; cases "l \<le> r - 1") auto
    finally show ?thesis .
  qed
qed

text \<open>Writing a run of cells when the ciphertext holds \<open>f cell\<close> at the position of each cell.\<close>

lemma route_put_cells:
  assumes "\<forall>(i, j) \<in> set cells. 0 \<le> i \<and> nat i < length m \<and> 0 \<le> j \<and> nat j < length (m ! nat i)"
    and "index + length cells \<le> length ct"
    and "\<forall>k < length cells. ct ! (index + k) = f (cells ! k)"
  shows "\<exists>m'. route_put ct cells (m, index) = Inr (m', index + length cells)
           \<and> length m' = length m
           \<and> (\<forall>r < length m. length (m' ! r) = length (m ! r)
                 \<and> (\<forall>c < length (m ! r). m' ! r ! c
                       = (if (int r, int c) \<in> set cells then Some (f (int r, int c))
                          else m ! r ! c)))"
  using assms
proof (induction cells arbitrary: m index)
  case Nil
  then show ?case by simp
next
  case (Cons cell cells)
  obtain i j where cell: "cell = (i, j)" by (cases cell)
  define m1 where "m1 = m[nat i := (m ! nat i)[nat j := Some (ct ! index)]]"
  have ij: "0 \<le> i" "nat i < length m" "0 \<le> j" "nat j < length (m ! nat i)"
    using Cons.prems(1) by (simp_all add: cell)
  have idx: "index < length ct" using Cons.prems(2) by simp
  have v: "ct ! index = f (i, j)" using Cons.prems(3) [rule_format, of 0] by (simp add: cell)
  have m1_len: "length m1 = length m" by (simp add: m1_def)
  have m1_row: "length (m1 ! r) = length (m ! r)" if "r < length m" for r
    using that by (cases "r = nat i") (simp_all add: m1_def)
  have m1_cell: "m1 ! r ! c = (if (int r, int c) = (i, j) then Some (f (i, j)) else m ! r ! c)"
    if "r < length m" "c < length (m ! r)" for r c
  proof (cases "r = nat i")
    case True
    then show ?thesis using that ij v by (cases "c = nat j") (auto simp: m1_def)
  next
    case False
    then have "int r \<noteq> i" by auto
    then show ?thesis using False that by (simp add: m1_def)
  qed
  have p1: "\<forall>(i, j) \<in> set cells. 0 \<le> i \<and> nat i < length m1 \<and> 0 \<le> j \<and> nat j < length (m1 ! nat i)"
    using Cons.prems(1) m1_len m1_row by auto
  have p2: "Suc index + length cells \<le> length ct" using Cons.prems(2) by simp
  have p3: "\<forall>k < length cells. ct ! (Suc index + k) = f (cells ! k)"
    using Cons.prems(3) [rule_format, of "Suc k" for k] by auto
  from Cons.IH [OF p1 p2 p3] obtain m' where
    m': "route_put ct cells (m1, Suc index) = Inr (m', Suc index + length cells)"
      "length m' = length m1"
      "\<forall>r < length m1. length (m' ! r) = length (m1 ! r)
          \<and> (\<forall>c < length (m1 ! r). m' ! r ! c
                = (if (int r, int c) \<in> set cells then Some (f (int r, int c)) else m1 ! r ! c))"
    by blast
  have "route_put ct (cell # cells) (m, index) = Inr (m', index + length (cell # cells))"
    using idx m'(1) by (simp add: cell m1_def)
  moreover have "length m' = length m" using m'(2) m1_len by simp
  moreover have "\<forall>r < length m. length (m' ! r) = length (m ! r)
      \<and> (\<forall>c < length (m ! r). m' ! r ! c
            = (if (int r, int c) \<in> set (cell # cells) then Some (f (int r, int c))
               else m ! r ! c))"
  proof (intro allI impI conjI)
    fix r assume r: "r < length m"
    show "length (m' ! r) = length (m ! r)" using m'(3) r m1_len m1_row by simp
    fix c assume c: "c < length (m ! r)"
    have "m' ! r ! c = (if (int r, int c) \<in> set cells then Some (f (int r, int c)) else m1 ! r ! c)"
      using m'(3) r c m1_len m1_row by simp
    then show "m' ! r ! c = (if (int r, int c) \<in> set (cell # cells) then Some (f (int r, int c))
                            else m ! r ! c)"
      using m1_cell [OF r c] by (auto simp: cell)
  qed
  ultimately show ?case by blast
qed

lemma join_all_cells:
  assumes "length m = nr" "\<forall>r < nr. length (m ! r) = nc"
    and "\<forall>r < nr. \<forall>c < nc. m ! r ! c = Some (p ! (r * nc + c))"
    and "length p = nr * nc"
  shows "join_cells m = Inr p"
proof -
  have m: "m = map (\<lambda>r. map (\<lambda>c. Some (p ! (r * nc + c))) [0..<nc]) [0..<nr]"
    using assms(1-3) by (intro nth_equalityI) (simp_all add: list_eq_iff_nth_eq)
  have full: "\<forall>row \<in> set m. \<forall>cell \<in> set row. cell \<noteq> None"
    by (subst m) auto
  have "concat (map (map the) m)
          = concat (map (\<lambda>r. map (\<lambda>c. p ! (r * nc + c)) [0..<nc]) [0..<nr])"
    by (subst m) (simp add: comp_def)
  also have "\<dots> = map ((!) p) [0..<nr * nc]" by (rule map_grid)
  also have "\<dots> = p" unfolding assms(4) [symmetric] by (rule map_nth)
  finally show ?thesis using full by (simp add: join_cells_def)
qed

lemma route_cipher_encrypt_cells:
  "route_cipher_encrypt s rows cols
     = map (\<lambda>(i, j). build_matrix (ljust s (rows * cols) CHR ''X'') (nat cols) (nat rows) 0
                        ! nat i ! nat j)
         (spiral 0 (rows - 1) 0 (cols - 1))"
  unfolding route_cipher_encrypt_def Let_def route_read_spiral by simp

lemma route_cipher_decrypt_cells:
  "route_cipher_decrypt ct rows cols
     = (case route_put ct (spiral 0 (rows - 1) 0 (cols - 1))
               (replicate (nat rows) (replicate (nat cols) None), 0) of
          Inl e \<Rightarrow> Inl e
        | Inr (matrix, index) \<Rightarrow> join_cells matrix)"
  unfolding route_cipher_decrypt_def Let_def route_write_spiral ..

lemma grid_member:
  assumes "1 \<le> rows" and "1 \<le> cols"
  shows "(i, j) \<in> set (spiral 0 (rows - 1) 0 (cols - 1))
           \<longleftrightarrow> 0 \<le> i \<and> nat i < nat rows \<and> 0 \<le> j \<and> nat j < nat cols"
  unfolding spiral_member using assms by auto

lemma route_round_trip_padded:
  assumes rows: "1 \<le> rows" and cols: "1 \<le> cols" and fits: "int (length s) \<le> rows * cols"
  shows "route_cipher_decrypt (route_cipher_encrypt s rows cols) rows cols
           = Inr (ljust s (rows * cols) CHR ''X'')"
proof -
  define nr where "nr = nat rows"
  define nc where "nc = nat cols"
  define p where "p = ljust s (rows * cols) CHR ''X''"
  define M where "M = build_matrix p nc nr 0"
  define cells where "cells = spiral 0 (rows - 1) 0 (cols - 1)"
  define f where "f = (\<lambda>(i, j). M ! nat i ! nat j)"
  define ct where "ct = map f cells"
  have total: "nat (rows * cols) = nr * nc"
    using rows cols by (simp add: nr_def nc_def nat_mult_distrib)
  have p_len: "length p = nr * nc"
    using fits total by (simp add: p_def ljust_def)
  have enc: "route_cipher_encrypt s rows cols = ct"
    unfolding ct_def f_def cells_def M_def p_def nr_def nc_def
    by (rule route_cipher_encrypt_cells)
  have member: "(i, j) \<in> set cells \<longleftrightarrow> 0 \<le> i \<and> nat i < nr \<and> 0 \<le> j \<and> nat j < nc" for i j
    unfolding cells_def nr_def nc_def by (rule grid_member [OF rows cols])
  define m0 :: "char option list list" where "m0 = replicate nr (replicate nc None)"
  have in_range: "\<forall>(i, j) \<in> set cells.
      0 \<le> i \<and> nat i < length m0 \<and> 0 \<le> j \<and> nat j < length (m0 ! nat i)"
    using member by (auto simp: m0_def)
  have vals: "\<forall>k < length cells. ct ! (0 + k) = f (cells ! k)" by (simp add: ct_def)
  have bound: "0 + length cells \<le> length ct" by (simp add: ct_def)
  from route_put_cells [OF in_range bound vals] obtain m' where
    put: "route_put ct cells (m0, 0) = Inr (m', 0 + length cells)"
    and m'_len: "length m' = length m0"
    and m'_cells: "\<forall>r < length m0. length (m' ! r) = length (m0 ! r)
          \<and> (\<forall>c < length (m0 ! r). m' ! r ! c
                = (if (int r, int c) \<in> set cells then Some (f (int r, int c)) else m0 ! r ! c))"
    by blast
  have len: "length m' = nr" using m'_len by (simp add: m0_def)
  have rws: "\<forall>r < nr. length (m' ! r) = nc" using m'_cells by (simp add: m0_def)
  have cell: "\<forall>r < nr. \<forall>c < nc. m' ! r ! c = Some (p ! (r * nc + c))"
  proof (intro allI impI)
    fix r c assume r: "r < nr" and c: "c < nc"
    have "(int r, int c) \<in> set cells" using r c by (simp add: member)
    then have "m' ! r ! c = Some (f (int r, int c))"
      using m'_cells r c by (simp add: m0_def)
    also have "f (int r, int c) = p ! (r * nc + c)"
      using r c by (simp add: f_def M_def build_matrix_nth)
    finally show "m' ! r ! c = Some (p ! (r * nc + c))" .
  qed
  have "join_cells m' = Inr p" by (rule join_all_cells [OF len rws cell p_len])
  moreover have "route_cipher_decrypt ct rows cols
      = (case route_put ct cells (m0, 0) of Inl e \<Rightarrow> Inl e
         | Inr (matrix, index) \<Rightarrow> join_cells matrix)"
    unfolding cells_def m0_def nr_def nc_def by (rule route_cipher_decrypt_cells)
  ultimately have "route_cipher_decrypt ct rows cols = Inr p"
    by (simp add: put)
  then show ?thesis by (simp add: enc p_def)
qed

text \<open>
  Claim C4. For \<open>rows \<ge> 1\<close>, \<open>cols \<ge> 1\<close> and a text of at most \<open>rows * cols\<close> characters,
  decoding the Route ciphertext returns, without raising, the text padded on the right
  with \<open>X\<close> to exactly \<open>rows * cols\<close> characters: the decoder keeps the filler.
\<close>

theorem route_round_trip:
  assumes "1 \<le> rows" and "1 \<le> cols" and "int (length s) \<le> rows * cols"
  shows "route_cipher_decrypt (route_cipher_encrypt s rows cols) rows cols
           = Inr (s @ replicate (nat (rows * cols) - length s) CHR ''X'')
       \<and> length (s @ replicate (nat (rows * cols) - length s) CHR ''X'') = nat (rows * cols)"
proof -
  have "ljust s (rows * cols) CHR ''X'' = s @ replicate (nat (rows * cols) - length s) CHR ''X''"
    by (simp add: ljust_def nat_diff_distrib')
  moreover have "length s \<le> nat (rows * cols)" using assms(3) by simp
  ultimately show ?thesis using route_round_trip_padded [OF assms] by simp
qed

theorem route_round_trip_witness:
  "(1::int) \<le> 3 \<and> (1::int) \<le> 4 \<and> int (length ''HELLOWORLD'') \<le> 3 * 4
   \<and> route_cipher_encrypt ''HELLOWORLD'' 3 4 = ''HELLRXXDLOWO''
   \<and> route_cipher_decrypt ''HELLRXXDLOWO'' 3 4 = Inr ''HELLOWORLDXX''"
proof -
  have r: "(1::int) \<le> 3" and c: "(1::int) \<le> 4" by simp_all
  have f: "int (length ''HELLOWORLD'') \<le> 3 * 4" by simp
  have e: "route_cipher_encrypt ''HELLOWORLD'' 3 4 = ''HELLRXXDLOWO''" by code_simp
  have x: "replicate 2 CHR ''X'' = ''XX''" by code_simp
  from route_round_trip [OF r c f] e x show ?thesis by simp
qed

section \<open>Playfair: the table and the shape of the ciphertext\<close>

text \<open>The normal form of one character: \<^verbatim>\<open>.lower().replace('j', 'i')\<close>.\<close>

lemma replace_j_lower: "replace_j (str_lower s) = map fold_j s"
  by (simp add: replace_j_def str_lower_def fold_j_def)

lemma letters25_facts:
  "distinct letters25" "length letters25 = 25"
  "\<forall>c \<in> set letters25. fold_j c = c"
  "\<forall>c \<in> set letters25. in_A_Z (char_upper c) \<and> char_upper c \<noteq> CHR ''J''"
  "CHR ''x'' \<in> set letters25"
  by (code_simp+)

lemma small_letters: "\<forall>n \<in> set [97..122]. n \<noteq> 106 \<longrightarrow> chr n \<in> set letters25"
  by code_simp

lemma ascii_letter_folded:
  assumes "is_ascii c" "isalpha (fold_j c)"
  shows "fold_j c \<in> set letters25"
proof -
  define d where "d = fold_j c"
  have lower: "97 \<le> ord (char_lower c) \<and> ord (char_lower c) \<le> 122" if "isalpha (char_lower c)"
  proof (cases "65 \<le> ord c \<and> ord c \<le> 90")
    case True
    then have "ord (char_lower c) = ord c + 32" by (simp add: char_lower_def Let_def ord_chr)
    then show ?thesis using True by simp
  next
    case False
    then have "char_lower c = c" using assms(1) by (auto simp: char_lower_def Let_def is_ascii_def)
    then show ?thesis using that False assms(1) by (auto simp: isalpha_def Let_def is_ascii_def)
  qed
  have i: "ord CHR ''i'' = 105" and j: "ord CHR ''j'' = 106" by (simp_all add: ord_def)
  have "97 \<le> ord d \<and> ord d \<le> 122 \<and> ord d \<noteq> 106"
  proof (cases "char_lower c = CHR ''j''")
    case True
    then show ?thesis by (simp add: d_def fold_j_def i)
  next
    case False
    then have "ord (char_lower c) \<noteq> 106" using j by (metis chr_ord)
    then show ?thesis using False lower assms(2) by (simp add: d_def fold_j_def)
  qed
  then have "ord d \<in> {97..122}" and n: "ord d \<noteq> 106" by simp_all
  then have "ord d \<in> set [97..122]" by (simp only: set_upto)
  then have "chr (ord d) \<in> set letters25" using small_letters n by blast
  then show ?thesis by (simp add: chr_ord d_def)
qed

text \<open>The two loops that build the table, before it is cut into rows.\<close>

lemma generate_key_table_rows:
  "generate_key_table key = map (\<lambda>i. take 5 (drop (i * 5) (flat_table key))) [0..<5]"
proof -
  obtain seen table where
    "fold (\<lambda>char (seen, table).
             if isalpha char \<and> char \<notin> seen then (insert char seen, table @ [char])
             else (seen, table))
          (replace_j (str_lower key)) ({}, []) = (seen, table)"
    by (cases "fold (\<lambda>char (seen, table).
             if isalpha char \<and> char \<notin> seen then (insert char seen, table @ [char])
             else (seen, table))
          (replace_j (str_lower key)) ({}, [])")
  then show ?thesis
    unfolding generate_key_table_def flat_table_def letters25_def Let_def
    by (simp only: prod.case)
qed

lemma key_loop:
  "distinct table0 \<Longrightarrow>
   \<exists>table. fold (\<lambda>char (seen, table).
                  if isalpha char \<and> char \<notin> seen then (insert char seen, table @ [char])
                  else (seen, table)) key (set table0, table0) = (set table, table)
        \<and> distinct table \<and> set table = set table0 \<union> {c \<in> set key. isalpha c}"
proof (induction key arbitrary: table0)
  case Nil
  then show ?case by simp
next
  case (Cons c key)
  show ?case
  proof (cases "isalpha c \<and> c \<notin> set table0")
    case True
    then have d: "distinct (table0 @ [c])" using Cons.prems by simp
    from Cons.IH [OF d] obtain table where
      "fold (\<lambda>char (seen, table).
                  if isalpha char \<and> char \<notin> seen then (insert char seen, table @ [char])
                  else (seen, table)) key (set (table0 @ [c]), table0 @ [c]) = (set table, table)"
      "distinct table" "set table = set (table0 @ [c]) \<union> {c \<in> set key. isalpha c}"
      by blast
    then show ?thesis using True by (intro exI [of _ table]) auto
  next
    case False
    from Cons.IH [OF Cons.prems] obtain table where
      "fold (\<lambda>char (seen, table).
                  if isalpha char \<and> char \<notin> seen then (insert char seen, table @ [char])
                  else (seen, table)) key (set table0, table0) = (set table, table)"
      "distinct table" "set table = set table0 \<union> {c \<in> set key. isalpha c}"
      by blast
    then show ?thesis using False by (intro exI [of _ table]) auto
  qed
qed

lemma alphabet_loop:
  "fold (\<lambda>char table. if char \<notin> seen then table @ [char] else table) xs table
     = table @ filter (\<lambda>c. c \<notin> seen) xs"
  by (induction xs arbitrary: table) simp_all

lemma flat_table_letters:
  assumes "\<forall>c \<in> set key. is_ascii c"
  shows "distinct (flat_table key)" and "set (flat_table key) = set letters25"
    and "length (flat_table key) = 25"
proof -
  define k where "k = map fold_j key"
  from key_loop [of "[]" k] obtain table where
    loop: "fold (\<lambda>char (seen, table).
                  if isalpha char \<and> char \<notin> seen then (insert char seen, table @ [char])
                  else (seen, table)) k ({}, []) = (set table, table)"
    and dist: "distinct table" and set_table: "set table = {c \<in> set k. isalpha c}"
    by auto
  have sub: "set table \<subseteq> set letters25"
    using assms ascii_letter_folded by (auto simp: set_table k_def)
  have flat: "flat_table key = table @ filter (\<lambda>c. c \<notin> set table) letters25"
    unfolding flat_table_def Let_def replace_j_lower k_def [symmetric] loop prod.case
      alphabet_loop ..
  show d: "distinct (flat_table key)"
    unfolding flat using dist letters25_facts(1) by auto
  show s: "set (flat_table key) = set letters25"
    unfolding flat using sub by auto
  have "length (flat_table key) = card (set (flat_table key))"
    using d by (simp add: distinct_card)
  also have "\<dots> = length letters25"
    unfolding s using letters25_facts(1) by (simp add: distinct_card)
  finally show "length (flat_table key) = 25" by (simp add: letters25_facts(2))
qed

lemma concat_slices:
  "concat (map (\<lambda>i. take n (drop (i * n) xs)) [0..<k]) = take (k * n) xs"
proof (induction k)
  case 0
  then show ?case by simp
next
  case (Suc k)
  have "take (Suc k * n) xs = take (k * n + n) xs" by (simp add: add.commute)
  also have "\<dots> = take (k * n) xs @ take n (drop (k * n) xs)" by (rule take_add)
  finally show ?case using Suc by simp
qed

lemma key_table_cells:
  assumes "\<forall>c \<in> set key. is_ascii c"
  shows "length (generate_key_table key) = 5"
    and "concat (generate_key_table key) = flat_table key"
    and "\<And>r. r < 5 \<Longrightarrow> length (generate_key_table key ! r) = 5"
    and "\<And>r c. r < 5 \<Longrightarrow> c < 5 \<Longrightarrow> generate_key_table key ! r ! c \<in> set letters25"
proof -
  note ft = flat_table_letters [OF assms]
  show "length (generate_key_table key) = 5" by (simp add: generate_key_table_rows)
  show "concat (generate_key_table key) = flat_table key"
    unfolding generate_key_table_rows concat_slices using ft(3) by simp
  show len: "length (generate_key_table key ! r) = 5" if "r < 5" for r
    using that ft(3) by (simp add: generate_key_table_rows)
  show "generate_key_table key ! r ! c \<in> set letters25" if "r < 5" "c < 5" for r c
  proof -
    have "generate_key_table key ! r ! c \<in> set (generate_key_table key ! r)"
      using len [OF that(1)] that(2) by (intro nth_mem) simp
    also have "\<dots> \<subseteq> set (flat_table key)"
      using that(1) by (auto simp: generate_key_table_rows dest: in_set_takeD in_set_dropD)
    finally show ?thesis by (simp add: ft(2))
  qed
qed

lemma index_of_length: "x \<in> set xs \<Longrightarrow> index_of x xs < length xs"
  by (induction xs) auto

lemma find_in_rows_Some:
  "c \<in> set (concat rows) \<Longrightarrow>
   \<exists>r k. find_in_rows c (enumerate n rows) = Some (r, k)
        \<and> n \<le> r \<and> r - n < length rows \<and> k < length (rows ! (r - n))"
proof (induction rows arbitrary: n)
  case Nil
  then show ?case by simp
next
  case (Cons row rows)
  show ?case
  proof (cases "c \<in> set row")
    case True
    then show ?thesis by (simp add: index_of_length)
  next
    case False
    then have "c \<in> set (concat rows)" using Cons.prems by simp
    from Cons.IH [OF this, of "Suc n"] obtain r k where
      "find_in_rows c (enumerate (Suc n) rows) = Some (r, k)"
      "Suc n \<le> r" "r - Suc n < length rows" "k < length (rows ! (r - Suc n))"
      by blast
    moreover from this have "r - n = Suc (r - Suc n)" by simp
    ultimately show ?thesis using False by auto
  qed
qed

lemma find_position_letter:
  assumes "\<forall>c \<in> set key. is_ascii c" and "a \<in> set letters25"
  shows "\<exists>r k. find_position a (generate_key_table key) = Some (r, k) \<and> r < 5 \<and> k < 5"
proof -
  note kt = key_table_cells [OF assms(1)]
  have a: "fold_j a = a" using assms(2) letters25_facts(3) by blast
  have "a \<in> set (concat (generate_key_table key))"
    using assms(2) flat_table_letters(2) [OF assms(1)] by (simp add: kt(2))
  from find_in_rows_Some [OF this, of 0] obtain r k where
    rk: "find_in_rows a (enumerate 0 (generate_key_table key)) = Some (r, k)"
      "r < length (generate_key_table key)" "k < length (generate_key_table key ! r)"
    by auto
  have "find_position a (generate_key_table key) = Some (r, k)"
    using rk(1) by (simp add: find_position_def replace_j_lower a)
  moreover have "r < 5" using rk(2) kt(1) by simp
  moreover have "k < 5" using rk(3) kt(3) [OF \<open>r < 5\<close>] by simp
  ultimately show ?thesis by blast
qed

lemma playfair_pair_letters:
  assumes key: "\<forall>c \<in> set key. is_ascii c"
    and a: "a \<in> set letters25" and b: "b \<in> set letters25"
    and shift: "shift = 1 \<or> shift = - 1"
  shows "\<exists>x y. playfair_pair shift (generate_key_table key) [a, b] = Inr [x, y]
           \<and> x \<in> set letters25 \<and> y \<in> set letters25"
proof -
  define table where "table = generate_key_table key"
  from find_position_letter [OF key a] obtain row1 col1 where
    p1: "find_position a table = Some (row1, col1)" "row1 < 5" "col1 < 5"
    unfolding table_def by blast
  from find_position_letter [OF key b] obtain row2 col2 where
    p2: "find_position b table = Some (row2, col2)" "row2 < 5" "col2 < 5"
    unfolding table_def by blast
  have cell: "table ! r ! c \<in> set letters25" if "r < 5" "c < 5" for r c
    unfolding table_def using that by (rule key_table_cells(4) [OF key])
  have wrap: "nat ((int k + shift) mod 5) < 5" for k
    by (simp add: nat_less_iff)
  show ?thesis
    unfolding table_def [symmetric]
    using p1 p2 cell wrap by (simp add: playfair_pair_def)
qed

lemma playfair_pairs_letters:
  assumes key: "\<forall>c \<in> set key. is_ascii c" and shift: "shift = 1 \<or> shift = - 1"
  shows "\<forall>d \<in> set ds. \<exists>a b. d = [a, b] \<and> a \<in> set letters25 \<and> b \<in> set letters25 \<Longrightarrow>
         \<exists>r. playfair_pairs shift (generate_key_table key) ds = Inr r
           \<and> length r = 2 * length ds \<and> set r \<subseteq> set letters25"
proof (induction ds)
  case Nil
  then show ?case by simp
next
  case (Cons d ds)
  then obtain a b where d: "d = [a, b]" "a \<in> set letters25" "b \<in> set letters25" by auto
  from playfair_pair_letters [OF key d(2,3) shift] obtain x y where
    xy: "playfair_pair shift (generate_key_table key) [a, b] = Inr [x, y]"
      "x \<in> set letters25" "y \<in> set letters25" by blast
  from Cons obtain r where
    r: "playfair_pairs shift (generate_key_table key) ds = Inr r"
      "length r = 2 * length ds" "set r \<subseteq> set letters25" by auto
  show ?case using xy r by (simp add: d(1))
qed

lemma make_digraphs_letters:
  "set t \<subseteq> set letters25 \<Longrightarrow>
   \<forall>d \<in> set (make_digraphs t). \<exists>a b. d = [a, b] \<and> a \<in> set letters25 \<and> b \<in> set letters25"
  using letters25_facts(5) by (induction t rule: make_digraphs.induct) auto

lemma make_digraphs_length: "length t \<le> 2 * length (make_digraphs t)"
  by (induction t rule: make_digraphs.induct) auto

lemma isalpha_fold_j: "isalpha (fold_j c) = isalpha c"
proof -
  have "isalpha CHR ''i''" "isalpha CHR ''j''" by (simp_all add: isalpha_def ord_def)
  moreover have "isalpha (char_lower c) = isalpha c"
  proof (cases "(65 \<le> ord c \<and> ord c \<le> 90) \<or> (192 \<le> ord c \<and> ord c \<le> 214)
                  \<or> (216 \<le> ord c \<and> ord c \<le> 222)")
    case True
    then have "ord (char_lower c) = ord c + 32"
      by (auto simp: char_lower_def Let_def ord_chr)
    then show ?thesis using True by (auto simp: isalpha_def Let_def)
  next
    case False
    then have "char_lower c = c" by (auto simp: char_lower_def Let_def)
    then show ?thesis by simp
  qed
  ultimately show ?thesis by (auto simp: fold_j_def)
qed

lemma normal_text:
  assumes "\<forall>c \<in> set s. is_ascii c"
  shows "set (filter isalpha (replace_j (str_lower s))) \<subseteq> set letters25"
    and "length (filter isalpha (replace_j (str_lower s))) = length (filter isalpha s)"
proof -
  show "set (filter isalpha (replace_j (str_lower s))) \<subseteq> set letters25"
    using assms ascii_letter_folded by (auto simp: replace_j_lower)
  have "filter isalpha (map fold_j s) = map fold_j (filter (isalpha \<circ> fold_j) s)"
    by (simp add: filter_map)
  also have "isalpha \<circ> fold_j = isalpha" by (simp add: fun_eq_iff isalpha_fold_j)
  finally show "length (filter isalpha (replace_j (str_lower s))) = length (filter isalpha s)"
    by (simp add: replace_j_lower)
qed

text \<open>
  Claim C10 does not hold for every key: with the key \<open>U+00E9\<close>, a letter for
  \<^verbatim>\<open>str.isalpha\<close>, the table gets 26 entries, its five rows end at \<open>y\<close>, and for the
  plaintext \<open>z\<close> the unpacking of \<^verbatim>\<open>find_position\<close>'s \<^verbatim>\<open>None\<close> raises \<^verbatim>\<open>TypeError\<close>:
  no string is returned.
\<close>

theorem playfair_output_counterexample:
  "generate_key_table [CHR 0xE9]
     = [[CHR 0xE9, CHR ''a'', CHR ''b'', CHR ''c'', CHR ''d''], ''efghi'', ''klmno'', ''pqrst'',
        ''uvwxy'']
   \<and> playfair_encrypt ''z'' [CHR 0xE9] = Inl TypeError"
  by code_simp

text \<open>
  Claim C10 for ASCII keys. For every ASCII plaintext and every ASCII key,
  \<open>playfair_encrypt\<close> returns a string (it does not raise) of even length, made of the
  letters \<open>A..Z\<close> without \<open>J\<close>, and at least as long as the number of letters of the
  plaintext.
\<close>

theorem playfair_output:
  assumes "\<forall>c \<in> set s. is_ascii c" and "\<forall>c \<in> set key. is_ascii c"
  shows "\<exists>ct. playfair_encrypt s key = Inr ct
           \<and> even (length ct)
           \<and> (\<forall>c \<in> set ct. in_A_Z c \<and> c \<noteq> CHR ''J'')
           \<and> length (filter isalpha s) \<le> length ct"
proof -
  define t where "t = filter isalpha (replace_j (str_lower s))"
  note nt = normal_text [OF assms(1), folded t_def]
  from playfair_pairs_letters [OF assms(2) _ make_digraphs_letters [OF nt(1)], of 1]
  obtain r where r: "playfair_pairs 1 (generate_key_table key) (make_digraphs t) = Inr r"
    "length r = 2 * length (make_digraphs t)" "set r \<subseteq> set letters25"
    by auto
  have enc: "playfair_encrypt s key = Inr (str_upper r)"
    using r(1) by (simp add: playfair_encrypt_def Let_def t_def)
  have "even (length (str_upper r))" using r(2) by (simp add: str_upper_def)
  moreover have "\<forall>c \<in> set (str_upper r). in_A_Z c \<and> c \<noteq> CHR ''J''"
    using r(3) letters25_facts(4) by (auto simp: str_upper_def)
  moreover have "length (filter isalpha s) \<le> length (str_upper r)"
    using make_digraphs_length [of t] r(2) nt(2) by (simp add: str_upper_def)
  ultimately show ?thesis using enc by blast
qed

theorem playfair_output_witness:
  "list_all is_ascii ''Hello, World'' \<and> list_all is_ascii ''MONARCHY''
   \<and> playfair_encrypt ''Hello, World'' ''MONARCHY'' = Inr ''CFSUPMVNMTBZ''
   \<and> even (length ''CFSUPMVNMTBZ'')
   \<and> list_all (\<lambda>c. in_A_Z c \<and> c \<noteq> CHR ''J'') ''CFSUPMVNMTBZ''
   \<and> length (filter isalpha ''Hello, World'') \<le> length ''CFSUPMVNMTBZ''"
proof -
  have a: "\<forall>c \<in> set ''Hello, World'' . is_ascii c" by code_simp
  have k: "\<forall>c \<in> set ''MONARCHY'' . is_ascii c" by code_simp
  have e: "playfair_encrypt ''Hello, World'' ''MONARCHY'' = Inr ''CFSUPMVNMTBZ''" by code_simp
  from playfair_output [OF a k] e show ?thesis using a k by (auto simp: list_all_iff)
qed

end
